theory Spec2Isabelle
  imports Complex_Main "HOL-Library.Multiset"
begin

section \<open>Python values, errors and the random source\<close>

text \<open>
  The program is \<^verbatim>\<open>phylogeny_simulator_and_statistical_verifier.py\<close>. Python integers
  are unbounded (\<open>int\<close>; list positions and lengths are \<open>nat\<close>), Python floats are modelled
  by exact reals, and every exception the code can raise is a value of \<open>py_error\<close>.
\<close>

datatype py_error = IndexError | ValueError | ZeroDivisionError | AssertionError

text \<open>
  A Case is the tuple \<^verbatim>\<open>(origin_generation, error_value)\<close>, an Individual a list of
  Cases, a Population a list of Individuals.
\<close>

type_synonym case_t = "int \<times> int"
type_synonym individual = "case_t list"
type_synonym population = "individual list"

text \<open>
  The module \<^verbatim>\<open>random\<close> is the only source of nondeterminism. Its state is the tape of
  raw draws that are still to come; a tape that has run out keeps yielding 0. Every run
  consumes finitely many draws, so quantifying over all tapes covers every run.
\<close>

type_synonym rng = "nat list"

definition next_draw :: "rng \<Rightarrow> nat \<times> rng" where
  "next_draw g = (case g of [] \<Rightarrow> (0, []) | r # g' \<Rightarrow> (r, g'))"

text \<open>\<^verbatim>\<open>random._randbelow(n)\<close>: a number in \<open>[0, n)\<close>.\<close>

definition randbelow :: "nat \<Rightarrow> rng \<Rightarrow> nat \<times> rng" where
  "randbelow n g = (let (r, g') = next_draw g in (r mod n, g'))"

text \<open>\<^verbatim>\<open>random.randint(a, b)\<close>: an integer in \<open>[a, b]\<close>, both ends included.\<close>

definition randint :: "int \<Rightarrow> int \<Rightarrow> rng \<Rightarrow> int \<times> rng" where
  "randint a b g = (let (r, g') = randbelow (nat (b - a + 1)) g in (a + int r, g'))"

text \<open>
  \<^verbatim>\<open>random.sample(population, k)\<close> of the standard library: \<^verbatim>\<open>ValueError\<close> unless
  \<open>0 \<le> k \<le> len(population)\<close>; otherwise \<open>k\<close> elements taken at pairwise different positions.
  The selection is the library's pool loop (for a long population the library picks
  positions by rejection instead, with the same possible results):
  \<^verbatim>\<open>
  pool = list(population)
  for i in range(k):
      j = randbelow(n - i)
      result[i] = pool[j]
      pool[j] = pool[n - i - 1]
  \<close>
\<close>

fun sample_pool :: "'a list \<Rightarrow> nat \<Rightarrow> rng \<Rightarrow> 'a list \<times> rng" where
  "sample_pool pool 0 g = ([], g)"
| "sample_pool pool (Suc k) g =
     (let (j, g1) = randbelow (length pool) g;
          (rest, g2) = sample_pool (butlast (pool[j := last pool])) k g1
      in (pool ! j # rest, g2))"

definition random_sample :: "'a list \<Rightarrow> int \<Rightarrow> rng \<Rightarrow> py_error + ('a list \<times> rng)" where
  "random_sample population k g =
     (if 0 \<le> k \<and> k \<le> int (length population)
      then Inr (sample_pool population (nat k) g)
      else Inl ValueError)"

text \<open>
  A list comprehension or \<^verbatim>\<open>for\<close> loop whose body draws random numbers: the body runs on
  each element in turn and hands the random state on. \<open>mapM_err\<close> is the same loop for a
  body that can raise: the first exception ends it.
\<close>

fun mapM_rng :: "('a \<Rightarrow> rng \<Rightarrow> 'b \<times> rng) \<Rightarrow> 'a list \<Rightarrow> rng \<Rightarrow> 'b list \<times> rng" where
  "mapM_rng f [] g = ([], g)"
| "mapM_rng f (x # xs) g =
     (let (y, g1) = f x g; (ys, g2) = mapM_rng f xs g1 in (y # ys, g2))"

fun mapM_err ::
  "('a \<Rightarrow> rng \<Rightarrow> py_error + ('b \<times> rng)) \<Rightarrow> 'a list \<Rightarrow> rng \<Rightarrow> py_error + ('b list \<times> rng)" where
  "mapM_err f [] g = Inr ([], g)"
| "mapM_err f (x # xs) g =
     (case f x g of
        Inl e \<Rightarrow> Inl e
      | Inr (y, g1) \<Rightarrow>
          (case mapM_err f xs g1 of
             Inl e \<Rightarrow> Inl e
           | Inr (ys, g2) \<Rightarrow> Inr (y # ys, g2)))"

text \<open>A comprehension whose body can raise but draws nothing.\<close>

fun mapE :: "('a \<Rightarrow> py_error + 'b) \<Rightarrow> 'a list \<Rightarrow> py_error + 'b list" where
  "mapE f [] = Inr []"
| "mapE f (x # xs) =
     (case f x of
        Inl e \<Rightarrow> Inl e
      | Inr y \<Rightarrow> (case mapE f xs of Inl e \<Rightarrow> Inl e | Inr ys \<Rightarrow> Inr (y # ys)))"

text \<open>\<^verbatim>\<open>range(n)\<close> is empty for \<open>n \<le> 0\<close>.\<close>

definition py_range :: "int \<Rightarrow> nat list" where
  "py_range n = [0..<nat n]"

text \<open>\<^verbatim>\<open>xs[i]\<close>: a negative index counts from the end; out of range raises.\<close>

definition py_index :: "'a list \<Rightarrow> int \<Rightarrow> py_error + 'a" where
  "py_index xs i =
     (if 0 \<le> i \<and> i < int (length xs) then Inr (xs ! nat i)
      else if i < 0 \<and> - int (length xs) \<le> i then Inr (xs ! nat (int (length xs) + i))
      else Inl IndexError)"

text \<open>\<^verbatim>\<open>max(xs)\<close> of a list of integers; \<^verbatim>\<open>ValueError\<close> on the empty list.\<close>

definition py_max :: "int list \<Rightarrow> py_error + int" where
  "py_max xs = (case xs of [] \<Rightarrow> Inl ValueError | x # rest \<Rightarrow> Inr (fold max rest x))"

text \<open>
  \<^verbatim>\<open>max(xs, key=f)\<close>: the first element whose key is maximal; \<^verbatim>\<open>ValueError\<close> on the
  empty list.
\<close>

definition py_max_key :: "('a \<Rightarrow> int) \<Rightarrow> 'a list \<Rightarrow> py_error + 'a" where
  "py_max_key f xs =
     (case xs of
        [] \<Rightarrow> Inl ValueError
      | x # rest \<Rightarrow> Inr (fold (\<lambda>y best. if f best < f y then y else best) rest x))"

text \<open>\<^verbatim>\<open>int(x)\<close> of a float: truncation toward zero.\<close>

definition py_int :: "real \<Rightarrow> int" where
  "py_int x = (if 0 \<le> x then \<lfloor>x\<rfloor> else \<lceil>x\<rceil>)"

text \<open>\<^verbatim>\<open>a / b\<close>: true division.\<close>

definition py_truediv :: "real \<Rightarrow> real \<Rightarrow> py_error + real" where
  "py_truediv a b = (if b = 0 then Inl ZeroDivisionError else Inr (a / b))"

section \<open>The simulator\<close>

definition TOURNAMENT_SIZE :: int where
  "TOURNAMENT_SIZE = 7"

text \<open>\<^verbatim>\<open>[(0, random.randint(0, 9999)) for _ in range(num_cases)]\<close>\<close>

definition generate_initial_error_vector :: "int \<Rightarrow> rng \<Rightarrow> individual \<times> rng" where
  "generate_initial_error_vector num_cases g =
     mapM_rng (\<lambda>_ g. let (e, g') = randint 0 9999 g in ((0, e), g')) (py_range num_cases) g"

text \<open>\<^verbatim>\<open>[generate_initial_error_vector(num_cases) for _ in range(p)]\<close>\<close>

definition generate_initial_population :: "int \<Rightarrow> int \<Rightarrow> rng \<Rightarrow> population \<times> rng" where
  "generate_initial_population p num_cases g =
     mapM_rng (\<lambda>_. generate_initial_error_vector num_cases) (py_range p) g"

text \<open>The key of the tournament: \<^verbatim>\<open>sum([case_states[1] for case_states in individual])\<close>.\<close>

definition total_error :: "individual \<Rightarrow> int" where
  "total_error individual = sum_list (map snd individual)"

text \<open>
  \<^verbatim>\<open>
  candidates = random.sample(population, TOURNAMENT_SIZE)
  return max(candidates, key=lambda individual: sum(...))
  \<close>
\<close>

definition tournament_selection :: "population \<Rightarrow> rng \<Rightarrow> py_error + (individual \<times> rng)" where
  "tournament_selection population g =
     (case random_sample population TOURNAMENT_SIZE g of
        Inl e \<Rightarrow> Inl e
      | Inr (candidates, g') \<Rightarrow>
          (case py_max_key total_error candidates of
             Inl e \<Rightarrow> Inl e
           | Inr best \<Rightarrow> Inr (best, g')))"

text \<open>
  \<^verbatim>\<open>
  num_downsampled_cases = int(rate * len(population[0]))
  cases_to_replace = random.sample([i for i in range(len(population[0]))], num_downsampled_cases)
  cases_to_replace.sort()
  return cases_to_replace
  \<close>
\<close>

definition downsample :: "population \<Rightarrow> real \<Rightarrow> rng \<Rightarrow> py_error + (nat list \<times> rng)" where
  "downsample population rate g =
     (case population of
        [] \<Rightarrow> Inl IndexError
      | first # _ \<Rightarrow>
          (let num_downsampled_cases = py_int (rate * real (length first))
           in case random_sample [0..<length first] num_downsampled_cases g of
                Inl e \<Rightarrow> Inl e
              | Inr (cases_to_replace, g') \<Rightarrow> Inr (sort cases_to_replace, g')))"

text \<open>\<^verbatim>\<open>max([case_specs[0] for case_specs in population[0]]) + 1\<close>\<close>

definition get_new_generation_age :: "population \<Rightarrow> py_error + int" where
  "get_new_generation_age population =
     (case population of
        [] \<Rightarrow> Inl IndexError
      | first # _ \<Rightarrow>
          (case py_max (map fst first) of Inl e \<Rightarrow> Inl e | Inr m \<Rightarrow> Inr (m + 1)))"

text \<open>
  The first line of \<^verbatim>\<open>select_and_vary\<close>:
  \<^verbatim>\<open>[tournament_selection(population) for _ in range(len(population))]\<close>.
\<close>

definition select_parents :: "population \<Rightarrow> rng \<Rightarrow> py_error + (population \<times> rng)" where
  "select_parents population g =
     mapM_err (\<lambda>_. tournament_selection population) [0..<length population] g"

text \<open>
  The inner loop of \<^verbatim>\<open>select_and_vary\<close>, which builds one child:
  \<^verbatim>\<open>
  for case_id in range(len(parent)):
      child.append((new_generation_age, random.randint(0, 9999))
                   if case_id in cases_to_replace else parent[case_id])
  \<close>
\<close>

definition make_child :: "int \<Rightarrow> nat list \<Rightarrow> individual \<Rightarrow> rng \<Rightarrow> individual \<times> rng" where
  "make_child new_generation_age cases_to_replace parent g =
     mapM_rng
       (\<lambda>case_id g.
          if case_id \<in> set cases_to_replace
          then (let (e, g') = randint 0 9999 g in ((new_generation_age, e), g'))
          else (parent ! case_id, g))
       [0..<length parent] g"

definition select_and_vary ::
  "population \<Rightarrow> nat list \<Rightarrow> rng \<Rightarrow> py_error + (population \<times> rng)" where
  "select_and_vary population cases_to_replace g =
     (case select_parents population g of
        Inl e \<Rightarrow> Inl e
      | Inr (selected_to_vary, g1) \<Rightarrow>
          (case get_new_generation_age population of
             Inl e \<Rightarrow> Inl e
           | Inr new_generation_age \<Rightarrow>
               Inr (mapM_rng (make_child new_generation_age cases_to_replace)
                      selected_to_vary g1)))"

definition simulate_one_generation ::
  "population \<Rightarrow> real \<Rightarrow> rng \<Rightarrow> py_error + (population \<times> rng)" where
  "simulate_one_generation population downsample_rate g =
     (case downsample population downsample_rate g of
        Inl e \<Rightarrow> Inl e
      | Inr (cases_to_replace, g') \<Rightarrow> select_and_vary population cases_to_replace g')"

text \<open>
  The loop of \<^verbatim>\<open>simualte_evolution\<close>: each round appends the next generation of the
  last population of the list.
\<close>

fun evolve_loop ::
  "nat \<Rightarrow> real \<Rightarrow> population list \<Rightarrow> rng \<Rightarrow> py_error + (population list \<times> rng)" where
  "evolve_loop 0 downsample_rate pops g = Inr (pops, g)"
| "evolve_loop (Suc n) downsample_rate pops g =
     (case simulate_one_generation (pops ! (length pops - 1)) downsample_rate g of
        Inl e \<Rightarrow> Inl e
      | Inr (p, g') \<Rightarrow> evolve_loop n downsample_rate (pops @ [p]) g')"

definition simualte_evolution ::
  "int \<Rightarrow> int \<Rightarrow> int \<Rightarrow> real \<Rightarrow> rng \<Rightarrow> py_error + (population list \<times> rng)" where
  "simualte_evolution num_generations pop_size num_cases downsample_rate g =
     (let (p0, g0) = generate_initial_population pop_size num_cases g
      in evolve_loop (nat num_generations) downsample_rate [p0] g0)"

section \<open>The statistics\<close>

definition cases_from_ancestor :: "individual \<Rightarrow> int \<Rightarrow> case_t list" where
  "cases_from_ancestor individual ancestor = filter (\<lambda>c. fst c = ancestor) individual"

definition cases_from_ancestors :: "individual \<Rightarrow> int list \<Rightarrow> case_t list list" where
  "cases_from_ancestors individual interested_ancestors =
     map (cases_from_ancestor individual) interested_ancestors"

text \<open>
  The function sorts its argument \<^verbatim>\<open>interested_ancestors\<close> in place before anything
  else, so the model returns the list as the caller finds it afterwards, next to the
  result or the exception.
\<close>

definition percent_cases_from_ancestors_at_specified_generation ::
  "population list \<Rightarrow> int \<Rightarrow> int list \<Rightarrow> int list \<times> (py_error + (int \<times> real) list list)" where
  "percent_cases_from_ancestors_at_specified_generation results target_generation interested_ancestors =
     (let interested_ancestors' = sort interested_ancestors
      in (interested_ancestors',
          case py_index results target_generation of
            Inl e \<Rightarrow> Inl e
          | Inr targeted_population \<Rightarrow>
              (case targeted_population of
                 [] \<Rightarrow> Inl IndexError
               | first # _ \<Rightarrow>
                   (let num_cases = length first;
                        ancestory_cases_per_individual =
                          map (\<lambda>individual. cases_from_ancestors individual interested_ancestors')
                            targeted_population
                    in mapE
                         (\<lambda>individual_ancestory.
                            mapE
                              (\<lambda>ancestory_cases_id.
                                 case py_truediv
                                        (real (length (individual_ancestory ! ancestory_cases_id)))
                                        (real num_cases) of
                                   Inl e \<Rightarrow> Inl e
                                 | Inr q \<Rightarrow> Inr (interested_ancestors' ! ancestory_cases_id, q))
                              [0..<length individual_ancestory])
                         ancestory_cases_per_individual))))"

text \<open>
  \<^verbatim>\<open>range(targeted_ancestors, target_generation + 1)\<close> is the list \<open>[a..t]\<close> of integers. The
  list handed to the function above is a temporary of this call.
\<close>

definition percent_cases_above_ancestor ::
  "population list \<Rightarrow> int \<Rightarrow> int \<Rightarrow> py_error + real" where
  "percent_cases_above_ancestor results target_generation targeted_ancestors =
     (case snd (percent_cases_from_ancestors_at_specified_generation results target_generation
                  [targeted_ancestors..target_generation]) of
        Inl e \<Rightarrow> Inl e
      | Inr percents_from_ancestor_to_target \<Rightarrow>
          (case percents_from_ancestor_to_target of
             [] \<Rightarrow> Inl IndexError
           | first # _ \<Rightarrow>
               (let percentages_in_nontarget_ancestory_range =
                      map (\<lambda>ancestor_id. map (\<lambda>individual. snd (individual ! ancestor_id))
                                            percents_from_ancestor_to_target)
                        [0..<length first]
                in case mapE (\<lambda>ancestor. py_truediv (sum_list ancestor) (real (length ancestor)))
                          percentages_in_nontarget_ancestory_range of
                     Inl e \<Rightarrow> Inl e
                   | Inr averages \<Rightarrow> Inr (1 - sum_list averages))))"


section \<open>The invariant of the simulation loop\<close>

text \<open>
  What the proofs below maintain for the population of generation \<open>gen\<close>, where \<open>k\<close> is
  the number of cases that \<open>downsample\<close> replaces in each generation: the sizes are those
  of the run, every origin tag lies in \<open>[0, gen]\<close>, nothing but tag 0 occurs when no case
  is ever replaced, and otherwise each individual of a generation after the first holds
  exactly \<open>k\<close> cases tagged with its own generation.
\<close>

definition generation_ok :: "nat \<Rightarrow> nat \<Rightarrow> nat \<Rightarrow> int \<Rightarrow> population \<Rightarrow> bool" where
  "generation_ok pop_size num_cases k gen population \<longleftrightarrow>
     length population = pop_size \<and>
     (\<forall>individual \<in> set population.
        length individual = num_cases \<and>
        (\<forall>c \<in> set individual. 0 \<le> fst c \<and> fst c \<le> gen) \<and>
        (k = 0 \<longrightarrow> (\<forall>c \<in> set individual. fst c = 0)) \<and>
        (0 < k \<and> 0 < gen \<longrightarrow> length (filter (\<lambda>c. fst c = gen) individual) = k))"

section \<open>Facts about the random source and the loops\<close>

lemma randbelow_less: "randbelow n g = (r, g') \<Longrightarrow> 0 < n \<Longrightarrow> r < n"
  by (auto simp: randbelow_def split: prod.splits)

lemma randint_bounds: "randint 0 9999 g = (e, g') \<Longrightarrow> 0 \<le> e \<and> e \<le> 9999"
  by (auto simp: randint_def split: prod.splits dest!: randbelow_less)

lemma mapM_rng_list_all2:
  assumes "\<And>x g y g'. x \<in> set xs \<Longrightarrow> f x g = (y, g') \<Longrightarrow> P x y"
    and "mapM_rng f xs g = (ys, g')"
  shows "list_all2 P xs ys"
  using assms
proof (induction xs arbitrary: g ys g')
  case Nil
  then show ?case by simp
next
  case (Cons x xs)
  obtain y g1 where fx: "f x g = (y, g1)" by (cases "f x g")
  obtain zs g2 where rest: "mapM_rng f xs g1 = (zs, g2)" by (cases "mapM_rng f xs g1")
  from Cons.prems(2) fx rest have ys: "ys = y # zs" by simp
  have "P x y" using Cons.prems(1) fx by simp
  moreover have "list_all2 P xs zs"
    using Cons.IH [OF _ rest] Cons.prems(1) by simp
  ultimately show ?case using ys by simp
qed

lemma mapM_err_list_all2:
  assumes "\<And>x g y g'. x \<in> set xs \<Longrightarrow> f x g = Inr (y, g') \<Longrightarrow> P x y"
    and "mapM_err f xs g = Inr (ys, g')"
  shows "list_all2 P xs ys"
  using assms
proof (induction xs arbitrary: g ys g')
  case Nil
  then show ?case by simp
next
  case (Cons x xs)
  from Cons.prems(2) obtain y g1 zs g2 where fx: "f x g = Inr (y, g1)"
    and rest: "mapM_err f xs g1 = Inr (zs, g2)" and ys: "ys = y # zs"
    by (auto split: sum.splits)
  have "P x y" using Cons.prems(1) fx by simp
  moreover have "list_all2 P xs zs"
    using Cons.IH [OF _ rest] Cons.prems(1) by simp
  ultimately show ?case using ys by simp
qed

lemma mapM_err_total:
  assumes "\<And>x g. x \<in> set xs \<Longrightarrow> \<exists>y g'. f x g = Inr (y, g')"
  shows "\<exists>ys g'. mapM_err f xs g = Inr (ys, g')"
  using assms
proof (induction xs arbitrary: g)
  case Nil
  then show ?case by simp
next
  case (Cons x xs)
  from Cons.prems obtain y g1 where fx: "f x g = Inr (y, g1)" by fastforce
  from Cons.IH Cons.prems obtain zs g2 where "mapM_err f xs g1 = Inr (zs, g2)"
    by (metis list.set_intros(2))
  with fx show ?case by simp
qed

lemma mapM_err_fixed_state:
  assumes "\<And>x. x \<in> set xs \<Longrightarrow> f x g = Inr (y, g)"
  shows "mapM_err f xs g = Inr (replicate (length xs) y, g)"
  using assms by (induction xs) simp_all

lemma mapM_rng_fixed_state:
  assumes "\<And>x. x \<in> set xs \<Longrightarrow> f x g = (h x, g)"
  shows "mapM_rng f xs g = (map h xs, g)"
  using assms by (induction xs) simp_all

lemma mapM_err_first_fails:
  "xs \<noteq> [] \<Longrightarrow> f (hd xs) g = Inl e \<Longrightarrow> mapM_err f xs g = Inl e"
  by (cases xs) simp_all

lemma mapE_Inr:
  "(\<And>x. x \<in> set xs \<Longrightarrow> f x = Inr (h x)) \<Longrightarrow> mapE f xs = Inr (map h xs)"
  by (induction xs) simp_all

lemma mset_pool_step:
  assumes "j < length pool"
  shows "add_mset (pool ! j) (mset (butlast (pool[j := last pool]))) = mset pool"
proof -
  from assms have "pool \<noteq> []" by auto
  then obtain ys l where pool: "pool = ys @ [l]" by (metis rev_exhaust)
  show ?thesis
  proof (cases "j < length ys")
    case True
    then have "butlast (pool[j := last pool]) = ys[j := l]"
      by (simp add: pool list_update_append)
    moreover have "pool ! j = ys ! j" using True by (simp add: pool nth_append)
    ultimately show ?thesis using True by (simp add: pool mset_update)
  next
    case False
    with assms have "j = length ys" by (simp add: pool)
    then show ?thesis by (simp add: pool)
  qed
qed

lemma sample_pool_length: "length (fst (sample_pool pool k g)) = k"
proof (induction k arbitrary: pool g)
  case 0
  then show ?case by simp
next
  case (Suc k)
  obtain j g1 where rb: "randbelow (length pool) g = (j, g1)" by (cases "randbelow (length pool) g")
  from Suc.IH [of "butlast (pool[j := last pool])" g1] rb show ?case
    by (auto split: prod.splits)
qed

lemma sample_pool_mset:
  "k \<le> length pool \<Longrightarrow> mset (fst (sample_pool pool k g)) \<subseteq># mset pool"
proof (induction k arbitrary: pool g)
  case 0
  then show ?case by simp
next
  case (Suc k)
  obtain j g1 where rb: "randbelow (length pool) g = (j, g1)" by (cases "randbelow (length pool) g")
  from Suc.prems have pos: "0 < length pool" by arith
  from rb pos have j: "j < length pool" by (rule randbelow_less)
  let ?pool' = "butlast (pool[j := last pool])"
  from Suc.prems have "k \<le> length ?pool'" by simp
  then have "mset (fst (sample_pool ?pool' k g1)) \<subseteq># mset ?pool'" by (rule Suc.IH)
  then have "add_mset (pool ! j) (mset (fst (sample_pool ?pool' k g1))) \<subseteq># add_mset (pool ! j) (mset ?pool')"
    by simp
  then show ?case using rb mset_pool_step [OF j] by (auto split: prod.splits)
qed

section \<open>Facts about selection, downsampling and variation\<close>

lemma fold_max_key:
  "fold (\<lambda>y best. if f best < f y then y else best) rest x \<in> set (x # rest) \<and>
   (\<forall>y \<in> set (x # rest). (f y :: int) \<le> f (fold (\<lambda>y best. if f best < f y then y else best) rest x))"
proof (induction rest arbitrary: x)
  case Nil
  then show ?case by simp
next
  case (Cons y rest)
  let ?x' = "if f x < f y then y else x"
  from Cons.IH [of ?x'] show ?case by (auto split: if_splits)
qed

lemma py_max_key_sound:
  assumes "xs \<noteq> []"
  shows "\<exists>best. py_max_key f xs = Inr best \<and> best \<in> set xs \<and> (\<forall>x \<in> set xs. f x \<le> f best)"
proof -
  from assms obtain x rest where xs: "xs = x # rest" by (cases xs) auto
  from fold_max_key [of f rest x] show ?thesis by (simp add: xs py_max_key_def)
qed

lemma random_sample_sound:
  assumes "0 \<le> k" and "k \<le> int (length population)"
  shows "\<exists>picked g'. random_sample population k g = Inr (picked, g') \<and>
           length picked = nat k \<and> mset picked \<subseteq># mset population"
proof -
  obtain picked g' where sp: "sample_pool population (nat k) g = (picked, g')"
    by (cases "sample_pool population (nat k) g")
  from assms have "nat k \<le> length population" by simp
  with sample_pool_mset [of "nat k" population g] sample_pool_length [of population "nat k" g] sp
  show ?thesis using assms by (simp add: random_sample_def)
qed

lemma tournament_selection_sound:
  assumes "7 \<le> length population"
  shows "\<exists>candidates best g'.
           random_sample population TOURNAMENT_SIZE g = Inr (candidates, g') \<and>
           tournament_selection population g = Inr (best, g') \<and>
           length candidates = 7 \<and> mset candidates \<subseteq># mset population \<and>
           best \<in> set candidates \<and>
           (\<forall>c \<in> set candidates. total_error c \<le> total_error best)"
proof -
  from assms have "0 \<le> TOURNAMENT_SIZE" "TOURNAMENT_SIZE \<le> int (length population)"
    by (simp_all add: TOURNAMENT_SIZE_def)
  from random_sample_sound [OF this, of g] obtain candidates g'
    where rs: "random_sample population TOURNAMENT_SIZE g = Inr (candidates, g')"
      and len: "length candidates = 7" and sub: "mset candidates \<subseteq># mset population"
    by (auto simp: TOURNAMENT_SIZE_def)
  from len have "candidates \<noteq> []" by auto
  from py_max_key_sound [OF this, of total_error] obtain best
    where mk: "py_max_key total_error candidates = Inr best" and mem: "best \<in> set candidates"
      and mx: "\<forall>c \<in> set candidates. total_error c \<le> total_error best"
    by blast
  from rs mk have "tournament_selection population g = Inr (best, g')"
    by (simp add: tournament_selection_def)
  with rs len sub mem mx show ?thesis by blast
qed

lemma tournament_selection_member:
  assumes "tournament_selection population g = Inr (best, g')"
  shows "best \<in> set population"
proof -
  have "7 \<le> length population"
  proof (rule ccontr)
    assume "\<not> 7 \<le> length population"
    then have "tournament_selection population g = Inl ValueError"
      by (simp add: tournament_selection_def random_sample_def TOURNAMENT_SIZE_def)
    with assms show False by simp
  qed
  from tournament_selection_sound [OF this, of g] assms obtain candidates
    where "mset candidates \<subseteq># mset population" and "best \<in> set candidates"
    by auto
  then show ?thesis by (metis set_mset_mono set_mset_mset subsetD)
qed

lemma distinct_of_submultiset:
  assumes "mset xs \<subseteq># mset ys" and "distinct ys"
  shows "distinct xs"
proof -
  have "count (mset xs) a = (if a \<in> set xs then 1 else 0)" for a
  proof (cases "a \<in> set xs")
    case True
    have le: "count (mset xs) a \<le> count (mset ys) a"
      using assms(1) by (rule mset_subset_eq_count)
    have one: "count (mset ys) a \<le> 1"
      using assms(2) by (simp add: distinct_count_atmost_1)
    from True have "count (mset xs) a \<noteq> 0" by simp
    with le one have "count (mset xs) a = 1" by linarith
    with True show ?thesis by simp
  next
    case False
    then show ?thesis by simp
  qed
  then show ?thesis by (simp add: distinct_count_atmost_1)
qed

lemma py_int_rate:
  assumes "0 \<le> rate" and "rate \<le> 1"
  shows "py_int (rate * real n) = \<lfloor>rate * real n\<rfloor>"
    and "0 \<le> \<lfloor>rate * real n\<rfloor>" and "\<lfloor>rate * real n\<rfloor> \<le> int n"
proof -
  from assms have nonneg: "0 \<le> rate * real n" by simp
  then show "py_int (rate * real n) = \<lfloor>rate * real n\<rfloor>" by (simp add: py_int_def)
  from nonneg show "0 \<le> \<lfloor>rate * real n\<rfloor>" by simp
  from assms have "rate * real n \<le> real n" by (simp add: mult_left_le_one_le)
  then have "\<lfloor>rate * real n\<rfloor> \<le> \<lfloor>real n\<rfloor>" by (rule floor_mono)
  then show "\<lfloor>rate * real n\<rfloor> \<le> int n" by simp
qed

lemma downsample_sound:
  assumes "population = first # others" and "0 \<le> rate" and "rate \<le> 1"
  shows "\<exists>cases_to_replace g'.
           downsample population rate g = Inr (cases_to_replace, g') \<and>
           length cases_to_replace = nat \<lfloor>rate * real (length first)\<rfloor> \<and>
           distinct cases_to_replace \<and> sorted cases_to_replace \<and>
           set cases_to_replace \<subseteq> {0..<length first}"
proof -
  let ?k = "\<lfloor>rate * real (length first)\<rfloor>"
  have k: "py_int (rate * real (length first)) = ?k" "0 \<le> ?k" "?k \<le> int (length first)"
    using py_int_rate [OF assms(2,3)] by simp_all
  from k(2,3) have "0 \<le> ?k" "?k \<le> int (length [0..<length first])" by simp_all
  from random_sample_sound [OF this, of g] obtain picked g'
    where rs: "random_sample [0..<length first] ?k g = Inr (picked, g')"
      and len: "length picked = nat ?k" and sub: "mset picked \<subseteq># mset [0..<length first]"
    by blast
  from sub have d: "distinct picked"
    by (rule distinct_of_submultiset) simp
  from sub have s: "set picked \<subseteq> {0..<length first}"
    by (metis set_mset_mono set_mset_mset set_upt)
  from rs k(1) have "downsample population rate g = Inr (sort picked, g')"
    by (simp add: downsample_def assms(1))
  with len d s show ?thesis by simp
qed

lemma make_child_sound:
  assumes "make_child new_generation_age cases_to_replace parent g = (child, g')"
  shows "length child = length parent"
    and "\<And>j. j < length parent \<Longrightarrow> j \<in> set cases_to_replace \<Longrightarrow>
           fst (child ! j) = new_generation_age \<and> 0 \<le> snd (child ! j) \<and> snd (child ! j) \<le> 9999"
    and "\<And>j. j < length parent \<Longrightarrow> j \<notin> set cases_to_replace \<Longrightarrow> child ! j = parent ! j"
proof -
  let ?P = "\<lambda>j c. (j \<in> set cases_to_replace \<longrightarrow>
                      fst c = new_generation_age \<and> 0 \<le> snd c \<and> snd c \<le> 9999) \<and>
                   (j \<notin> set cases_to_replace \<longrightarrow> c = parent ! j)"
  have all2: "list_all2 ?P [0..<length parent] child"
  proof (rule mapM_rng_list_all2 [OF _ assms [unfolded make_child_def]])
    fix j g c g'
    assume "(if j \<in> set cases_to_replace
             then let (e, g') = randint 0 9999 g in ((new_generation_age, e), g')
             else (parent ! j, g)) = (c, g')"
    then show "?P j c"
      by (auto split: if_splits prod.splits dest: randint_bounds)
  qed
  then show len: "length child = length parent" by (simp add: list_all2_conv_all_nth)
  fix j assume j: "j < length parent"
  with all2 have "?P ([0..<length parent] ! j) (child ! j)"
    by (simp add: list_all2_conv_all_nth)
  with j have Pj: "?P j (child ! j)" by simp
  { assume "j \<in> set cases_to_replace"
    with Pj show "fst (child ! j) = new_generation_age \<and> 0 \<le> snd (child ! j) \<and> snd (child ! j) \<le> 9999"
      by simp }
  { assume "j \<notin> set cases_to_replace"
    with Pj show "child ! j = parent ! j" by simp }
qed

lemma py_max_Max:
  assumes "xs \<noteq> []"
  shows "py_max xs = Inr (Max (set xs))"
proof -
  from assms obtain x rest where xs: "xs = x # rest" by (cases xs) auto
  have "fold max rest x = Max (set (x # rest))" by (rule Max.set_eq_fold [symmetric])
  then show ?thesis by (simp add: py_max_def xs)
qed

lemma get_new_generation_age_Max:
  assumes "population = first # others" and "first \<noteq> []"
  shows "get_new_generation_age population = Inr (Max (fst ` set first) + 1)"
proof -
  from assms(2) have "map fst first \<noteq> []" by simp
  from py_max_Max [OF this] show ?thesis
    by (simp add: get_new_generation_age_def assms(1))
qed

lemma individual_max_tag:
  assumes inv: "generation_ok P N k gen population"
    and mem: "first \<in> set population" and N: "0 < N" and gen: "0 \<le> gen"
  shows "Max (fst ` set first) = (if k = 0 then 0 else gen)"
proof -
  from inv mem have len: "length first = N"
    and bounds: "\<forall>c \<in> set first. 0 \<le> fst c \<and> fst c \<le> gen"
    and zero: "k = 0 \<longrightarrow> (\<forall>c \<in> set first. fst c = 0)"
    and cnt: "0 < k \<and> 0 < gen \<longrightarrow> length (filter (\<lambda>c. fst c = gen) first) = k"
    by (simp_all add: generation_ok_def)
  from len N obtain c0 where c0: "c0 \<in> set first" by (cases first) auto
  let ?m = "if k = 0 then 0 else gen"
  have mem: "?m \<in> fst ` set first"
  proof (cases "k = 0")
    case True
    with zero c0 have "fst c0 = 0" by simp
    with c0 True show ?thesis by force
  next
    case k: False
    show ?thesis
    proof (cases "0 < gen")
      case True
      with k cnt have "filter (\<lambda>c. fst c = gen) first \<noteq> []" by auto
      then obtain c where "c \<in> set first" "fst c = gen"
        by (auto simp: filter_empty_conv)
      with k show ?thesis by force
    next
      case False
      with gen have g0: "gen = 0" by simp
      with bounds c0 have "fst c0 = 0" by force
      with c0 k g0 show ?thesis by force
    qed
  qed
  have ub: "y \<le> ?m" if "y \<in> fst ` set first" for y
  proof -
    from that obtain c where c: "c \<in> set first" "y = fst c" by auto
    show ?thesis
    proof (cases "k = 0")
      case True
      with zero c show ?thesis by simp
    next
      case False
      with bounds c show ?thesis by simp
    qed
  qed
  show ?thesis by (rule Max_eqI) (simp, rule ub, assumption, rule mem)
qed

lemma select_parents_members:
  assumes "select_parents population g = Inr (parents, g')"
  shows "length parents = length population" and "set parents \<subseteq> set population"
proof -
  have all2: "list_all2 (\<lambda>_ parent. parent \<in> set population) [0..<length population] parents"
    by (rule mapM_err_list_all2 [OF _ assms [unfolded select_parents_def]])
       (rule tournament_selection_member)
  then show "length parents = length population"
    by (auto dest: list_all2_lengthD)
  from all2 show "set parents \<subseteq> set population"
    by (auto simp: list_all2_conv_all_nth in_set_conv_nth)
qed

lemma select_parents_total:
  assumes "7 \<le> length population"
  shows "\<exists>parents g'. select_parents population g = Inr (parents, g')"
  unfolding select_parents_def
proof (rule mapM_err_total)
  fix x g
  from tournament_selection_sound [OF assms, of g]
  show "\<exists>y g'. tournament_selection population g = Inr (y, g')" by blast
qed

lemma select_and_vary_sound:
  assumes "select_and_vary population cases_to_replace g = Inr (new_population, g')"
  shows "\<exists>selected_to_vary g1 new_generation_age.
           select_parents population g = Inr (selected_to_vary, g1) \<and>
           get_new_generation_age population = Inr new_generation_age \<and>
           length selected_to_vary = length population \<and>
           set selected_to_vary \<subseteq> set population \<and>
           list_all2
             (\<lambda>parent child.
                length child = length parent \<and>
                (\<forall>j < length parent.
                   (j \<in> set cases_to_replace \<longrightarrow>
                      fst (child ! j) = new_generation_age \<and>
                      0 \<le> snd (child ! j) \<and> snd (child ! j) \<le> 9999) \<and>
                   (j \<notin> set cases_to_replace \<longrightarrow> child ! j = parent ! j)))
             selected_to_vary new_population"
proof -
  from assms obtain parents g1 age
    where sp: "select_parents population g = Inr (parents, g1)"
      and age: "get_new_generation_age population = Inr age"
      and mk: "mapM_rng (make_child age cases_to_replace) parents g1 = (new_population, g')"
    by (auto simp: select_and_vary_def split: sum.splits prod.splits)
  have "list_all2
          (\<lambda>parent child.
             length child = length parent \<and>
             (\<forall>j < length parent.
                (j \<in> set cases_to_replace \<longrightarrow>
                   fst (child ! j) = age \<and> 0 \<le> snd (child ! j) \<and> snd (child ! j) \<le> 9999) \<and>
                (j \<notin> set cases_to_replace \<longrightarrow> child ! j = parent ! j)))
          parents new_population"
  proof (rule mapM_rng_list_all2 [OF _ mk])
    fix parent g child g'
    assume "make_child age cases_to_replace parent g = (child, g')"
    from make_child_sound [OF this]
    show "length child = length parent \<and>
          (\<forall>j < length parent.
             (j \<in> set cases_to_replace \<longrightarrow>
                fst (child ! j) = age \<and> 0 \<le> snd (child ! j) \<and> snd (child ! j) \<le> 9999) \<and>
             (j \<notin> set cases_to_replace \<longrightarrow> child ! j = parent ! j))"
      by blast
  qed
  with sp age select_parents_members [OF sp] show ?thesis by blast
qed

lemma count_replaced:
  assumes len: "length (child :: individual) = N" and d: "distinct ctr"
    and sub: "set ctr \<subseteq> {0..<N}"
    and tag: "\<And>j. j < N \<Longrightarrow> (fst (child ! j) = t) = (j \<in> set ctr)"
  shows "length (filter (\<lambda>c. fst c = (t::int)) child) = length ctr"
proof -
  have "{i. i < length child \<and> fst (child ! i) = t} = set ctr"
    using len sub tag by auto
  then have "length (filter (\<lambda>c. fst c = t) child) = card (set ctr)"
    by (simp add: length_filter_conv_card)
  with d show ?thesis by (simp add: distinct_card)
qed

lemma child_generation_ok:
  assumes par: "length (parent :: individual) = N" "\<forall>c \<in> set parent. 0 \<le> fst c \<and> fst c \<le> gen"
      "k = 0 \<longrightarrow> (\<forall>c \<in> set parent. fst c = 0)"
    and ctr: "length ctr = k" "distinct ctr" "set ctr \<subseteq> {0..<N}"
    and gen: "0 \<le> gen"
    and age: "age = (if k = 0 then 1 else gen + 1)"
    and len: "length child = length parent"
    and repl: "\<And>j. j < length parent \<Longrightarrow> j \<in> set ctr \<Longrightarrow> fst (child ! j) = age"
    and keep: "\<And>j. j < length parent \<Longrightarrow> j \<notin> set ctr \<Longrightarrow> child ! j = parent ! j"
  shows "length child = N"
    and "\<forall>c \<in> set child. 0 \<le> fst c \<and> fst c \<le> gen + 1"
    and "k = 0 \<longrightarrow> (\<forall>c \<in> set child. fst c = 0)"
    and "0 < k \<longrightarrow> length (filter (\<lambda>c. fst c = gen + 1) child) = k"
proof -
  show lenc: "length child = N" using len par(1) by simp
  have nth_tag: "0 \<le> fst (child ! j) \<and> fst (child ! j) \<le> gen + 1 \<and>
                 (k = 0 \<longrightarrow> fst (child ! j) = 0) \<and>
                 (0 < k \<longrightarrow> (fst (child ! j) = gen + 1) = (j \<in> set ctr))"
    if j: "j < N" for j
  proof (cases "j \<in> set ctr")
    case True
    then have "ctr \<noteq> []" by auto
    with ctr(1) have kpos: "0 < k" by auto
    from repl [of j] j True par(1) have "fst (child ! j) = age" by simp
    with age kpos have "fst (child ! j) = gen + 1" by simp
    moreover from gen have "0 \<le> gen + 1" by arith
    ultimately show ?thesis using kpos True by simp
  next
    case False
    from keep [of j] j False par(1) have eq: "child ! j = parent ! j" by simp
    from j par(1) have "parent ! j \<in> set parent" by simp
    with par(2,3) eq have "0 \<le> fst (child ! j) \<and> fst (child ! j) \<le> gen \<and>
        (k = 0 \<longrightarrow> fst (child ! j) = 0)" by simp
    with False show ?thesis by simp
  qed
  have elem: "\<exists>j < N. c = child ! j" if "c \<in> set child" for c
    using that lenc by (auto simp: in_set_conv_nth)
  show "\<forall>c \<in> set child. 0 \<le> fst c \<and> fst c \<le> gen + 1"
  proof
    fix c assume "c \<in> set child"
    from elem [OF this] obtain j where "j < N" "c = child ! j" by blast
    with nth_tag [of j] show "0 \<le> fst c \<and> fst c \<le> gen + 1" by simp
  qed
  show "k = 0 \<longrightarrow> (\<forall>c \<in> set child. fst c = 0)"
  proof (intro impI ballI)
    fix c assume "k = 0" "c \<in> set child"
    from elem [OF this(2)] obtain j where "j < N" "c = child ! j" by blast
    with nth_tag [of j] \<open>k = 0\<close> show "fst c = 0" by simp
  qed
  show "0 < k \<longrightarrow> length (filter (\<lambda>c. fst c = gen + 1) child) = k"
  proof
    assume kpos: "0 < k"
    have "length (filter (\<lambda>c. fst c = gen + 1) child) = length ctr"
      by (rule count_replaced [OF lenc ctr(2,3)]) (use nth_tag kpos in simp)
    with ctr(1) show "length (filter (\<lambda>c. fst c = gen + 1) child) = k" by simp
  qed
qed

text \<open>
  On a tape that a selection and the making of a child leave as it was (the empty tape,
  whose draws are all 0), every round of \<open>select_and_vary\<close> repeats the first.
\<close>

lemma select_and_vary_fixed_state:
  assumes ts: "tournament_selection population g = Inr (parent, g)"
    and age: "get_new_generation_age population = Inr new_generation_age"
    and mc: "make_child new_generation_age cases_to_replace parent g = (child, g)"
  shows "select_and_vary population cases_to_replace g
           = Inr (replicate (length population) child, g)"
proof -
  have "select_parents population g = Inr (replicate (length [0..<length population]) parent, g)"
    unfolding select_parents_def by (rule mapM_err_fixed_state) (rule ts)
  moreover have "mapM_rng (make_child new_generation_age cases_to_replace)
                   (replicate (length population) parent) g
                 = (map (\<lambda>_. child) (replicate (length population) parent), g)"
    by (rule mapM_rng_fixed_state) (simp add: mc)
  ultimately show ?thesis by (simp add: select_and_vary_def age)
qed

section \<open>Facts about one generation and the whole run\<close>

lemma simulate_one_generation_step:
  assumes inv: "generation_ok P N k gen population"
    and P: "7 \<le> P" and N: "0 < N" and rate: "0 \<le> rate" "rate \<le> 1"
    and k: "k = nat \<lfloor>rate * real N\<rfloor>" and gen: "0 \<le> gen"
  shows "\<exists>population' g'.
           simulate_one_generation population rate g = Inr (population', g') \<and>
           generation_ok P N k (gen + 1) population'"
proof -
  from inv have lenpop: "length population = P" by (simp add: generation_ok_def)
  with P obtain first others where pop: "population = first # others"
    by (cases population) auto
  from inv pop have lenfirst: "length first = N" by (simp add: generation_ok_def)
  from downsample_sound [OF pop rate, of g] lenfirst k obtain ctr g1
    where ds: "downsample population rate g = Inr (ctr, g1)"
      and ctr: "length ctr = k" "distinct ctr" "set ctr \<subseteq> {0..<N}"
    by auto
  from lenpop P have "7 \<le> length population" by simp
  from select_parents_total [OF this, of g1] obtain parents g2
    where sp: "select_parents population g1 = Inr (parents, g2)" by blast
  note par = select_parents_members [OF sp]
  let ?age = "if k = 0 then 1 else gen + 1"
  from N lenfirst have "first \<noteq> []" by auto
  moreover from pop have "first \<in> set population" by simp
  ultimately have age: "get_new_generation_age population = Inr ?age"
    using get_new_generation_age_Max [OF pop] individual_max_tag [OF inv _ N gen] by simp
  obtain children g3
    where mk: "mapM_rng (make_child ?age ctr) parents g2 = (children, g3)"
    by (cases "mapM_rng (make_child ?age ctr) parents g2")
  from sp age mk have sv: "select_and_vary population ctr g1 = Inr (children, g3)"
    by (simp add: select_and_vary_def)
  with ds have sim: "simulate_one_generation population rate g = Inr (children, g3)"
    by (simp add: simulate_one_generation_def)
  from select_and_vary_sound [OF sv] sp age
  have rel: "list_all2
          (\<lambda>parent child.
             length child = length parent \<and>
             (\<forall>j < length parent.
                (j \<in> set ctr \<longrightarrow>
                   fst (child ! j) = ?age \<and> 0 \<le> snd (child ! j) \<and> snd (child ! j) \<le> 9999) \<and>
                (j \<notin> set ctr \<longrightarrow> child ! j = parent ! j)))
          parents children"
    by simp
  from rel par(1) lenpop have lenc: "length children = P"
    by (auto dest: list_all2_lengthD)
  have each: "length child = N \<and>
              (\<forall>c \<in> set child. 0 \<le> fst c \<and> fst c \<le> gen + 1) \<and>
              (k = 0 \<longrightarrow> (\<forall>c \<in> set child. fst c = 0)) \<and>
              (0 < k \<and> 0 < gen + 1 \<longrightarrow> length (filter (\<lambda>c. fst c = gen + 1) child) = k)"
    if "child \<in> set children" for child
  proof -
    from that obtain i where i: "i < length children" "child = children ! i"
      by (auto simp: in_set_conv_nth)
    define parent where "parent = parents ! i"
    from rel i have ilt: "i < length parents" by (auto dest: list_all2_lengthD)
    from rel i parent_def have len: "length child = length parent"
      and repl: "\<And>j. j < length parent \<Longrightarrow> j \<in> set ctr \<Longrightarrow> fst (child ! j) = ?age"
      and keep: "\<And>j. j < length parent \<Longrightarrow> j \<notin> set ctr \<Longrightarrow> child ! j = parent ! j"
      by (simp_all add: list_all2_conv_all_nth)
    from ilt par(2) parent_def have "parent \<in> set population" by auto
    with inv have pp: "length parent = N" "\<forall>c \<in> set parent. 0 \<le> fst c \<and> fst c \<le> gen"
      "k = 0 \<longrightarrow> (\<forall>c \<in> set parent. fst c = 0)"
      by (simp_all add: generation_ok_def)
    note ok = child_generation_ok [OF pp ctr gen refl len repl keep]
    from ok(4) have "0 < k \<and> 0 < gen + 1 \<longrightarrow> length (filter (\<lambda>c. fst c = gen + 1) child) = k"
      by simp
    with ok(1,2,3) show ?thesis by blast
  qed
  with lenc have "generation_ok P N k (gen + 1) children"
    unfolding generation_ok_def by blast
  with sim show ?thesis by blast
qed

lemma list_all2_right_only:
  assumes "list_all2 (\<lambda>_ y. Q y) xs ys"
  shows "length ys = length xs" and "\<forall>y \<in> set ys. Q y"
proof -
  from assms show "length ys = length xs" by (auto dest: list_all2_lengthD)
  from assms show "\<forall>y \<in> set ys. Q y"
    by (auto simp: list_all2_conv_all_nth in_set_conv_nth)
qed

lemma generate_initial_error_vector_sound:
  assumes "generate_initial_error_vector num_cases g = (individual, g')"
  shows "length individual = nat num_cases"
    and "\<forall>c \<in> set individual. fst c = 0 \<and> 0 \<le> snd c \<and> snd c \<le> 9999"
proof -
  have all2: "list_all2 (\<lambda>_ c. fst c = 0 \<and> 0 \<le> snd c \<and> snd c \<le> 9999)
                (py_range num_cases) individual"
  proof (rule mapM_rng_list_all2 [OF _ assms [unfolded generate_initial_error_vector_def]])
    fix x :: nat and g c g'
    assume "(let (e, g') = randint 0 9999 g in ((0, e), g')) = (c, g')"
    then show "fst c = 0 \<and> 0 \<le> snd c \<and> snd c \<le> 9999"
      by (auto split: prod.splits dest: randint_bounds)
  qed
  from list_all2_right_only(1) [OF all2] show "length individual = nat num_cases"
    by (simp add: py_range_def)
  from list_all2_right_only(2) [OF all2]
  show "\<forall>c \<in> set individual. fst c = 0 \<and> 0 \<le> snd c \<and> snd c \<le> 9999" .
qed

lemma generate_initial_population_sound:
  assumes "generate_initial_population p num_cases g = (population, g')"
  shows "length population = nat p"
    and "\<forall>individual \<in> set population.
           length individual = nat num_cases \<and>
           (\<forall>c \<in> set individual. fst c = 0 \<and> 0 \<le> snd c \<and> snd c \<le> 9999)"
proof -
  have all2: "list_all2
                (\<lambda>_ individual. length individual = nat num_cases \<and>
                   (\<forall>c \<in> set individual. fst c = 0 \<and> 0 \<le> snd c \<and> snd c \<le> 9999))
                (py_range p) population"
  proof (rule mapM_rng_list_all2 [OF _ assms [unfolded generate_initial_population_def]])
    fix x :: nat and g individual g'
    assume "generate_initial_error_vector num_cases g = (individual, g')"
    from generate_initial_error_vector_sound [OF this]
    show "length individual = nat num_cases \<and>
          (\<forall>c \<in> set individual. fst c = 0 \<and> 0 \<le> snd c \<and> snd c \<le> 9999)"
      by blast
  qed
  from list_all2_right_only(1) [OF all2] show "length population = nat p"
    by (simp add: py_range_def)
  from list_all2_right_only(2) [OF all2]
  show "\<forall>individual \<in> set population.
           length individual = nat num_cases \<and>
           (\<forall>c \<in> set individual. fst c = 0 \<and> 0 \<le> snd c \<and> snd c \<le> 9999)" .
qed

lemma initial_generation_ok:
  assumes "generate_initial_population p num_cases g = (population, g')"
  shows "generation_ok (nat p) (nat num_cases) k 0 population"
  using generate_initial_population_sound [OF assms]
  by (simp add: generation_ok_def)

lemma evolve_loop_sound:
  assumes P: "7 \<le> P" and N: "0 < N" and rate: "0 \<le> rate" "rate \<le> 1"
    and k: "k = nat \<lfloor>rate * real N\<rfloor>"
    and ne: "pops \<noteq> []"
    and inv: "\<forall>i < length pops. generation_ok P N k (int i) (pops ! i)"
  shows "\<exists>history rs.
           evolve_loop n rate pops g = Inr (history, rs ! n) \<and>
           length rs = Suc n \<and> rs ! 0 = g \<and>
           length history = length pops + n \<and>
           take (length pops) history = pops \<and>
           (\<forall>i < length history. generation_ok P N k (int i) (history ! i)) \<and>
           (\<forall>i < n. simulate_one_generation (history ! (length pops - 1 + i)) rate (rs ! i)
                      = Inr (history ! (length pops + i), rs ! Suc i))"
  using ne inv
proof (induction n arbitrary: pops g)
  case 0
  have "evolve_loop 0 rate pops g = Inr (pops, [g] ! 0)" by simp
  with 0 show ?case by (intro exI [of _ pops] exI [of _ "[g]"]) simp
next
  case (Suc n)
  let ?m = "length pops - 1"
  from Suc.prems(1) have m: "?m < length pops" "Suc ?m = length pops" by simp_all
  with Suc.prems(2) have "generation_ok P N k (int ?m) (pops ! ?m)" by blast
  from simulate_one_generation_step [OF this P N rate k, of g] obtain p g1
    where sim: "simulate_one_generation (pops ! ?m) rate g = Inr (p, g1)"
      and ok: "generation_ok P N k (int ?m + 1) p"
    by auto
  from m have im: "int ?m + 1 = int (length pops)" by linarith
  have inv': "\<forall>i < length (pops @ [p]). generation_ok P N k (int i) ((pops @ [p]) ! i)"
  proof (intro allI impI)
    fix i assume "i < length (pops @ [p])"
    then consider "i < length pops" | "i = length pops" by fastforce
    then show "generation_ok P N k (int i) ((pops @ [p]) ! i)"
    proof cases
      case 1
      with Suc.prems(2) show ?thesis by (simp add: nth_append)
    next
      case 2
      with ok im show ?thesis by simp
    qed
  qed
  have "pops @ [p] \<noteq> []" by simp
  from Suc.IH [OF this inv', of g1] obtain history rs
    where ev: "evolve_loop n rate (pops @ [p]) g1 = Inr (history, rs ! n)"
      and lrs: "length rs = Suc n" and rs0: "rs ! 0 = g1"
      and lh: "length history = length (pops @ [p]) + n"
      and tk: "take (length (pops @ [p])) history = pops @ [p]"
      and hinv: "\<forall>i < length history. generation_ok P N k (int i) (history ! i)"
      and steps: "\<forall>i < n. simulate_one_generation (history ! (length (pops @ [p]) - 1 + i)) rate (rs ! i)
                      = Inr (history ! (length (pops @ [p]) + i), rs ! Suc i)"
    by blast
  have nth_old: "history ! i = (pops @ [p]) ! i" if "i < Suc (length pops)" for i
  proof -
    from that have "take (length (pops @ [p])) history ! i = history ! i" by simp
    with tk show ?thesis by simp
  qed
  have h_last: "history ! ?m = pops ! ?m"
    using nth_old [of ?m] m by (simp add: nth_append)
  have h_new: "history ! length pops = p"
    using nth_old [of "length pops"] by simp
  have tk': "take (length pops) history = pops"
  proof -
    have "take (length pops) history = take (length pops) (take (length (pops @ [p])) history)"
      by simp
    also have "\<dots> = take (length pops) (pops @ [p])" by (simp only: tk)
    also have "\<dots> = pops" by simp
    finally show ?thesis .
  qed
  have steps': "simulate_one_generation (history ! (length pops - 1 + i)) rate ((g # rs) ! i)
                  = Inr (history ! (length pops + i), (g # rs) ! Suc i)"
    if "i < Suc n" for i
  proof (cases i)
    case 0
    with sim h_last h_new rs0 show ?thesis by simp
  next
    case (Suc i')
    with that have "i' < n" by simp
    with steps have st: "simulate_one_generation (history ! (length (pops @ [p]) - 1 + i')) rate (rs ! i')
                      = Inr (history ! (length (pops @ [p]) + i'), rs ! Suc i')" by blast
    have a: "length (pops @ [p]) - 1 + i' = length pops - 1 + i" using m Suc by simp
    have b: "length (pops @ [p]) + i' = length pops + i" using Suc by simp
    have c: "(g # rs) ! i = rs ! i'" "(g # rs) ! Suc i = rs ! Suc i'" using Suc by simp_all
    from st show ?thesis unfolding a b c .
  qed
  from sim ev have "evolve_loop (Suc n) rate pops g = Inr (history, (g # rs) ! Suc n)" by simp
  moreover from lrs have "length (g # rs) = Suc (Suc n)" by simp
  moreover have "(g # rs) ! 0 = g" by simp
  moreover from lh have "length history = length pops + Suc n" by simp
  ultimately show ?case using tk' hinv steps' by blast
qed

lemma simualte_evolution_sound:
  assumes "7 \<le> pop_size" and "1 \<le> num_cases" and "0 \<le> rate" and "rate \<le> 1"
  shows "\<exists>history rs.
           simualte_evolution num_generations pop_size num_cases rate g
             = Inr (history, rs ! nat num_generations) \<and>
           length rs = nat num_generations + 1 \<and>
           length history = nat num_generations + 1 \<and>
           generate_initial_population pop_size num_cases g = (history ! 0, rs ! 0) \<and>
           (\<forall>i < length history.
              generation_ok (nat pop_size) (nat num_cases)
                (nat \<lfloor>rate * real (nat num_cases)\<rfloor>) (int i) (history ! i)) \<and>
           (\<forall>i < nat num_generations.
              simulate_one_generation (history ! i) rate (rs ! i)
                = Inr (history ! Suc i, rs ! Suc i))"
proof -
  let ?k = "nat \<lfloor>rate * real (nat num_cases)\<rfloor>"
  obtain p0 g0 where init: "generate_initial_population pop_size num_cases g = (p0, g0)"
    by (cases "generate_initial_population pop_size num_cases g")
  from initial_generation_ok [OF init]
  have "\<forall>i < length [p0]. generation_ok (nat pop_size) (nat num_cases) ?k (int i) ([p0] ! i)"
    by simp
  then have "\<exists>history rs.
           evolve_loop (nat num_generations) rate [p0] g0 = Inr (history, rs ! nat num_generations) \<and>
           length rs = Suc (nat num_generations) \<and> rs ! 0 = g0 \<and>
           length history = length [p0] + nat num_generations \<and>
           take (length [p0]) history = [p0] \<and>
           (\<forall>i < length history.
              generation_ok (nat pop_size) (nat num_cases) ?k (int i) (history ! i)) \<and>
           (\<forall>i < nat num_generations.
              simulate_one_generation (history ! (length [p0] - 1 + i)) rate (rs ! i)
                = Inr (history ! (length [p0] + i), rs ! Suc i))"
    using assms by (intro evolve_loop_sound) simp_all
  then obtain history rs
    where ev: "evolve_loop (nat num_generations) rate [p0] g0 = Inr (history, rs ! nat num_generations)"
      and lrs: "length rs = Suc (nat num_generations)" and rs0: "rs ! 0 = g0"
      and lh: "length history = length [p0] + nat num_generations"
      and tk: "take (length [p0]) history = [p0]"
      and hinv: "\<forall>i < length history.
                   generation_ok (nat pop_size) (nat num_cases) ?k (int i) (history ! i)"
      and steps: "\<forall>i < nat num_generations.
                    simulate_one_generation (history ! (length [p0] - 1 + i)) rate (rs ! i)
                      = Inr (history ! (length [p0] + i), rs ! Suc i)"
    by blast
  from tk lh have h0: "history ! 0 = p0" by (cases history) simp_all
  from init ev have "simualte_evolution num_generations pop_size num_cases rate g
                       = Inr (history, rs ! nat num_generations)"
    by (simp add: simualte_evolution_def)
  moreover from init h0 rs0
  have "generate_initial_population pop_size num_cases g = (history ! 0, rs ! 0)" by simp
  moreover from steps
  have "\<forall>i < nat num_generations.
          simulate_one_generation (history ! i) rate (rs ! i) = Inr (history ! Suc i, rs ! Suc i)"
    by simp
  ultimately show ?thesis using lrs lh hinv by auto
qed

section \<open>Facts about the statistics\<close>

lemma shared_max_tag_age:
  assumes ne: "population \<noteq> []"
    and shared: "\<forall>a \<in> set population. a \<noteq> [] \<and> Max (fst ` set a) = (m::int)"
  shows "Max (fst ` set (concat population)) = m"
    and "get_new_generation_age population = Inr (m + 1)"
proof -
  from ne obtain first others where pop: "population = first # others"
    by (cases population) auto
  with shared have first: "first \<noteq> []" "Max (fst ` set first) = m" by simp_all
  from get_new_generation_age_Max [OF pop first(1)] first(2)
  show "get_new_generation_age population = Inr (m + 1)" by simp
  show "Max (fst ` set (concat population)) = m"
  proof (rule Max_eqI)
    show "finite (fst ` set (concat population))" by simp
  next
    fix y assume "y \<in> fst ` set (concat population)"
    then obtain a c where a: "a \<in> set population" and c: "c \<in> set a" and y: "y = fst c"
      by auto
    from c have "fst c \<le> Max (fst ` set a)" by simp
    with shared a y show "y \<le> m" by simp
  next
    from first(1) have "Max (fst ` set first) \<in> fst ` set first" by (intro Max_in) simp_all
    with first(2) pop show "m \<in> fst ` set (concat population)" by auto
  qed
qed

lemma percent_cases_single_generation:
  assumes lt: "i < length history" and pop: "history ! i = population"
    and P: "0 < P" "length population = P" and N: "0 < N"
    and cnt: "\<forall>individual \<in> set population.
                length individual = N \<and> length (filter (\<lambda>c. fst c = int i) individual) = k"
  shows "snd (percent_cases_from_ancestors_at_specified_generation history (int i) [int i])
           = Inr (replicate P [(int i, real k / real N)])"
proof -
  from P obtain first others where fo: "population = first # others"
    by (cases population) auto
  with cnt have lenfirst: "length first = N" by simp
  from lt pop have idx: "py_index history (int i) = Inr population"
    by (simp add: py_index_def)
  let ?G = "\<lambda>individual. cases_from_ancestors individual [int i]"
  let ?F = "\<lambda>individual_ancestory.
              mapE (\<lambda>ancestory_cases_id.
                      case py_truediv (real (length (individual_ancestory ! ancestory_cases_id)))
                             (real N) of
                        Inl e \<Rightarrow> Inl e
                      | Inr q \<Rightarrow> Inr ([int i] ! ancestory_cases_id, q))
                [0..<length individual_ancestory]"
  have "snd (percent_cases_from_ancestors_at_specified_generation history (int i) [int i])
          = mapE ?F (map ?G population)"
    using idx lenfirst
    by (simp add: percent_cases_from_ancestors_at_specified_generation_def Let_def fo)
  also have "\<dots> = Inr (map (\<lambda>_. [(int i, real k / real N)]) (map ?G population))"
  proof (rule mapE_Inr)
    fix x assume "x \<in> set (map ?G population)"
    then obtain individual where ind: "individual \<in> set population" and x: "x = ?G individual"
      by auto
    from cnt ind have "length (filter (\<lambda>c. fst c = int i) individual) = k" by simp
    with N show "?F x = Inr [(int i, real k / real N)]"
      by (simp add: x cases_from_ancestors_def cases_from_ancestor_def py_truediv_def)
  qed
  also have "map (\<lambda>_. [(int i, real k / real N)]) (map ?G population)
               = replicate P [(int i, real k / real N)]"
    using P(2) by (simp add: map_replicate_const)
  finally show ?thesis .
qed

lemma percent_cases_above_own_generation:
  assumes lt: "i < length history" and pop: "history ! i = population"
    and P: "0 < P" "length population = P" and N: "0 < N"
    and cnt: "\<forall>individual \<in> set population.
                length individual = N \<and> length (filter (\<lambda>c. fst c = int i) individual) = k"
  shows "percent_cases_above_ancestor history (int i) (int i) = Inr (1 - real k / real N)"
proof -
  let ?q = "real k / real N"
  from P(1) obtain P' where P': "P = Suc P'" by (cases P) auto
  have percents: "snd (percent_cases_from_ancestors_at_specified_generation history (int i)
                    [int i..int i]) = Inr (replicate P [(int i, ?q)])"
    using percent_cases_single_generation [OF assms] by simp
  have avg: "mapE (\<lambda>ancestor. py_truediv (sum_list ancestor) (real (length ancestor)))
               [replicate P ?q] = Inr [?q]"
    using P(1) by (simp add: py_truediv_def sum_list_replicate)
  have "percent_cases_above_ancestor history (int i) (int i)
          = (case mapE (\<lambda>ancestor. py_truediv (sum_list ancestor) (real (length ancestor)))
                    [replicate P ?q] of
               Inl e \<Rightarrow> Inl e
             | Inr averages \<Rightarrow> Inr (1 - sum_list averages))"
    unfolding percent_cases_above_ancestor_def percents
    by (simp add: P' Let_def)
  also have "\<dots> = Inr (1 - ?q)" by (simp only: avg) simp
  finally show ?thesis .
qed

section \<open>The downsampler\<close>



section \<open>Tournament selection\<close>

text \<open>
  Claim C4. On a population of at least 7 individuals \<open>tournament_selection\<close> draws 7
  candidates without replacement (as a multiset they are part of the population) and
  returns one of these candidates, whose summed error value no candidate exceeds.
\<close>

theorem tournament_selection_returns_best_of_sample:
  assumes "7 \<le> length population"
  shows "\<exists>candidates best g'.
           random_sample population TOURNAMENT_SIZE g = Inr (candidates, g') \<and>
           tournament_selection population g = Inr (best, g') \<and>
           length candidates = 7 \<and>
           mset candidates \<subseteq># mset population \<and>
           best \<in> set candidates \<and>
           (\<forall>c \<in> set candidates. total_error c \<le> total_error best)"
  using assms by (rule tournament_selection_sound)

theorem tournament_selection_returns_best_of_sample_witness:
  "tournament_selection [[(0,1)],[(0,2)],[(0,3)],[(0,4)],[(0,1)],[(0,1)],[(0,1)],[(0,9)]] [0,1,2,3,4,5,6] = Inr ([(0,9)], []) \<and>
   (\<exists>candidates best g'.
      random_sample [[(0,1)],[(0,2)],[(0,3)],[(0,4)],[(0,1)],[(0,1)],[(0,1)],[(0,9)]] TOURNAMENT_SIZE [0,1,2,3,4,5,6] = Inr (candidates, g') \<and>
      tournament_selection [[(0,1)],[(0,2)],[(0,3)],[(0,4)],[(0,1)],[(0,1)],[(0,1)],[(0,9)]] [0,1,2,3,4,5,6] = Inr (best, g') \<and>
      length candidates = 7 \<and>
      mset candidates \<subseteq># mset [[(0,1)],[(0,2)],[(0,3)],[(0,4)],[(0,1)],[(0,1)],[(0,1)],[(0,9)]] \<and>
      best \<in> set candidates \<and>
      (\<forall>c \<in> set candidates. total_error c \<le> total_error best))"
proof
  show "tournament_selection [[(0,1)],[(0,2)],[(0,3)],[(0,4)],[(0,1)],[(0,1)],[(0,1)],[(0,9)]] [0,1,2,3,4,5,6] = Inr ([(0,9)], [])"
    by code_simp
  show "\<exists>candidates best g'.
      random_sample [[(0,1)],[(0,2)],[(0,3)],[(0,4)],[(0,1)],[(0,1)],[(0,1)],[(0,9)]] TOURNAMENT_SIZE [0,1,2,3,4,5,6] = Inr (candidates, g') \<and>
      tournament_selection [[(0,1)],[(0,2)],[(0,3)],[(0,4)],[(0,1)],[(0,1)],[(0,1)],[(0,9)]] [0,1,2,3,4,5,6] = Inr (best, g') \<and>
      length candidates = 7 \<and>
      mset candidates \<subseteq># mset [[(0,1)],[(0,2)],[(0,3)],[(0,4)],[(0,1)],[(0,1)],[(0,1)],[(0,9)]] \<and>
      best \<in> set candidates \<and>
      (\<forall>c \<in> set candidates. total_error c \<le> total_error best)"
    by (rule tournament_selection_returns_best_of_sample) simp
qed

text \<open>
  Claim C8. With fewer than 7 individuals \<open>tournament_selection\<close> raises
  \<^verbatim>\<open>ValueError\<close> whatever the random tape: no individual is returned. In
  \<open>select_and_vary\<close> the first selection already raises, so no part of a new population is
  returned either.
\<close>

theorem tournament_selection_fails_below_seven:
  assumes "length population < 7"
  shows "tournament_selection population g = Inl ValueError \<and>
         (population \<noteq> [] \<longrightarrow> select_and_vary population cases_to_replace g = Inl ValueError)"
proof -
  have ts: "tournament_selection population g = Inl ValueError" for g
    using assms by (simp add: tournament_selection_def random_sample_def TOURNAMENT_SIZE_def)
  have "select_and_vary population cases_to_replace g = Inl ValueError" if "population \<noteq> []"
  proof -
    from that have "[0..<length population] \<noteq> []" by simp
    then have "select_parents population g = Inl ValueError"
      unfolding select_parents_def by (rule mapM_err_first_fails) (rule ts)
    then show ?thesis by (simp add: select_and_vary_def)
  qed
  with ts show ?thesis by blast
qed

theorem tournament_selection_fails_below_seven_witness:
  "tournament_selection [[(0,5)],[(0,6)]] [1,2,3] = Inl ValueError \<and>
   select_and_vary [[(0,5)],[(0,6)]] [0] [1,2,3] = Inl ValueError"
  using tournament_selection_fails_below_seven [of "[[(0,5)],[(0,6)]]" "[1,2,3]" "[0]"]
  by simp

section \<open>Selection and variation\<close>

text \<open>
  Claim C5. Whenever \<open>select_and_vary\<close> returns a new population, child \<open>i\<close> is built
  from the \<open>i\<close>-th selected parent (a member of the population) and has its length; at
  each case index in \<open>cases_to_replace\<close> the child carries the new generation age and an
  error value in \<open>[0, 9999]\<close>; at every other index it carries the parent's pair of origin
  tag and error value unchanged.
\<close>

theorem select_and_vary_replaces_only_selected_cases:
  assumes "select_and_vary population cases_to_replace g = Inr (new_population, g')"
  shows "\<exists>selected_to_vary g1 new_generation_age.
           select_parents population g = Inr (selected_to_vary, g1) \<and>
           get_new_generation_age population = Inr new_generation_age \<and>
           set selected_to_vary \<subseteq> set population \<and>
           length new_population = length selected_to_vary \<and>
           (\<forall>i < length new_population.
              length (new_population ! i) = length (selected_to_vary ! i) \<and>
              (\<forall>j < length (selected_to_vary ! i).
                 (j \<in> set cases_to_replace \<longrightarrow>
                    fst (new_population ! i ! j) = new_generation_age \<and>
                    0 \<le> snd (new_population ! i ! j) \<and> snd (new_population ! i ! j) \<le> 9999) \<and>
                 (j \<notin> set cases_to_replace \<longrightarrow>
                    new_population ! i ! j = selected_to_vary ! i ! j)))"
proof -
  from select_and_vary_sound [OF assms] obtain selected_to_vary g1 new_generation_age
    where sp: "select_parents population g = Inr (selected_to_vary, g1)"
      and age: "get_new_generation_age population = Inr new_generation_age"
      and sub: "set selected_to_vary \<subseteq> set population"
      and rel: "list_all2
             (\<lambda>parent child.
                length child = length parent \<and>
                (\<forall>j < length parent.
                   (j \<in> set cases_to_replace \<longrightarrow>
                      fst (child ! j) = new_generation_age \<and>
                      0 \<le> snd (child ! j) \<and> snd (child ! j) \<le> 9999) \<and>
                   (j \<notin> set cases_to_replace \<longrightarrow> child ! j = parent ! j)))
             selected_to_vary new_population"
    by blast
  from rel have len: "length new_population = length selected_to_vary"
    by (auto dest: list_all2_lengthD)
  from rel have "\<forall>i < length new_population.
              length (new_population ! i) = length (selected_to_vary ! i) \<and>
              (\<forall>j < length (selected_to_vary ! i).
                 (j \<in> set cases_to_replace \<longrightarrow>
                    fst (new_population ! i ! j) = new_generation_age \<and>
                    0 \<le> snd (new_population ! i ! j) \<and> snd (new_population ! i ! j) \<le> 9999) \<and>
                 (j \<notin> set cases_to_replace \<longrightarrow>
                    new_population ! i ! j = selected_to_vary ! i ! j))"
    by (simp add: list_all2_conv_all_nth)
  with sp age sub len show ?thesis by blast
qed

theorem select_and_vary_replaces_only_selected_cases_witness:
  "select_and_vary [[(0,11),(0,12)],[(0,21),(0,22)],[(0,31),(0,32)],[(0,41),(0,42)],[(0,51),(0,52)],[(0,61),(0,62)],[(0,71),(0,72)]] [1] []
     = Inr (([[(0,71),(1,0)],[(0,71),(1,0)],[(0,71),(1,0)],[(0,71),(1,0)],[(0,71),(1,0)],[(0,71),(1,0)],[(0,71),(1,0)]] :: population), []) \<and>
   (\<exists>selected_to_vary g1 new_generation_age.
     select_parents [[(0,11),(0,12)],[(0,21),(0,22)],[(0,31),(0,32)],[(0,41),(0,42)],[(0,51),(0,52)],[(0,61),(0,62)],[(0,71),(0,72)]] [] = Inr (selected_to_vary, g1) \<and>
     get_new_generation_age [[(0,11),(0,12)],[(0,21),(0,22)],[(0,31),(0,32)],[(0,41),(0,42)],[(0,51),(0,52)],[(0,61),(0,62)],[(0,71),(0,72)]] = Inr new_generation_age \<and>
     set selected_to_vary \<subseteq> set [[(0,11),(0,12)],[(0,21),(0,22)],[(0,31),(0,32)],[(0,41),(0,42)],[(0,51),(0,52)],[(0,61),(0,62)],[(0,71),(0,72)]] \<and>
     length ([[(0,71),(1,0)],[(0,71),(1,0)],[(0,71),(1,0)],[(0,71),(1,0)],[(0,71),(1,0)],[(0,71),(1,0)],[(0,71),(1,0)]] :: population) = length selected_to_vary \<and>
     (\<forall>i < length ([[(0,71),(1,0)],[(0,71),(1,0)],[(0,71),(1,0)],[(0,71),(1,0)],[(0,71),(1,0)],[(0,71),(1,0)],[(0,71),(1,0)]] :: population).
        length (([[(0,71),(1,0)],[(0,71),(1,0)],[(0,71),(1,0)],[(0,71),(1,0)],[(0,71),(1,0)],[(0,71),(1,0)],[(0,71),(1,0)]] :: population) ! i) = length (selected_to_vary ! i) \<and>
        (\<forall>j < length (selected_to_vary ! i).
           (j \<in> set [1] \<longrightarrow>
              fst (([[(0,71),(1,0)],[(0,71),(1,0)],[(0,71),(1,0)],[(0,71),(1,0)],[(0,71),(1,0)],[(0,71),(1,0)],[(0,71),(1,0)]] :: population) ! i ! j) = new_generation_age \<and>
              0 \<le> snd (([[(0,71),(1,0)],[(0,71),(1,0)],[(0,71),(1,0)],[(0,71),(1,0)],[(0,71),(1,0)],[(0,71),(1,0)],[(0,71),(1,0)]] :: population) ! i ! j) \<and> snd (([[(0,71),(1,0)],[(0,71),(1,0)],[(0,71),(1,0)],[(0,71),(1,0)],[(0,71),(1,0)],[(0,71),(1,0)],[(0,71),(1,0)]] :: population) ! i ! j) \<le> 9999) \<and>
           (j \<notin> set [1] \<longrightarrow> ([[(0,71),(1,0)],[(0,71),(1,0)],[(0,71),(1,0)],[(0,71),(1,0)],[(0,71),(1,0)],[(0,71),(1,0)],[(0,71),(1,0)]] :: population) ! i ! j = selected_to_vary ! i ! j))))"
proof
  have ts: "tournament_selection [[(0,11),(0,12)],[(0,21),(0,22)],[(0,31),(0,32)],[(0,41),(0,42)],[(0,51),(0,52)],[(0,61),(0,62)],[(0,71),(0,72)]] []
              = Inr ([(0,71),(0,72)], [])"
    by code_simp
  have age: "get_new_generation_age [[(0,11),(0,12)],[(0,21),(0,22)],[(0,31),(0,32)],[(0,41),(0,42)],[(0,51),(0,52)],[(0,61),(0,62)],[(0,71),(0,72)]] = Inr 1"
    by code_simp
  have mc: "make_child 1 [1] [(0,71),(0,72)] [] = ([(0,71),(1,0)], [])"
    by code_simp
  from select_and_vary_fixed_state [OF ts age mc]
  show run: "select_and_vary [[(0,11),(0,12)],[(0,21),(0,22)],[(0,31),(0,32)],[(0,41),(0,42)],[(0,51),(0,52)],[(0,61),(0,62)],[(0,71),(0,72)]] [1] []
     = Inr (([[(0,71),(1,0)],[(0,71),(1,0)],[(0,71),(1,0)],[(0,71),(1,0)],[(0,71),(1,0)],[(0,71),(1,0)],[(0,71),(1,0)]] :: population), [])"
    by simp
  show "\<exists>selected_to_vary g1 new_generation_age.
     select_parents [[(0,11),(0,12)],[(0,21),(0,22)],[(0,31),(0,32)],[(0,41),(0,42)],[(0,51),(0,52)],[(0,61),(0,62)],[(0,71),(0,72)]] [] = Inr (selected_to_vary, g1) \<and>
     get_new_generation_age [[(0,11),(0,12)],[(0,21),(0,22)],[(0,31),(0,32)],[(0,41),(0,42)],[(0,51),(0,52)],[(0,61),(0,62)],[(0,71),(0,72)]] = Inr new_generation_age \<and>
     set selected_to_vary \<subseteq> set [[(0,11),(0,12)],[(0,21),(0,22)],[(0,31),(0,32)],[(0,41),(0,42)],[(0,51),(0,52)],[(0,61),(0,62)],[(0,71),(0,72)]] \<and>
     length ([[(0,71),(1,0)],[(0,71),(1,0)],[(0,71),(1,0)],[(0,71),(1,0)],[(0,71),(1,0)],[(0,71),(1,0)],[(0,71),(1,0)]] :: population) = length selected_to_vary \<and>
     (\<forall>i < length ([[(0,71),(1,0)],[(0,71),(1,0)],[(0,71),(1,0)],[(0,71),(1,0)],[(0,71),(1,0)],[(0,71),(1,0)],[(0,71),(1,0)]] :: population).
        length (([[(0,71),(1,0)],[(0,71),(1,0)],[(0,71),(1,0)],[(0,71),(1,0)],[(0,71),(1,0)],[(0,71),(1,0)],[(0,71),(1,0)]] :: population) ! i) = length (selected_to_vary ! i) \<and>
        (\<forall>j < length (selected_to_vary ! i).
           (j \<in> set [1] \<longrightarrow>
              fst (([[(0,71),(1,0)],[(0,71),(1,0)],[(0,71),(1,0)],[(0,71),(1,0)],[(0,71),(1,0)],[(0,71),(1,0)],[(0,71),(1,0)]] :: population) ! i ! j) = new_generation_age \<and>
              0 \<le> snd (([[(0,71),(1,0)],[(0,71),(1,0)],[(0,71),(1,0)],[(0,71),(1,0)],[(0,71),(1,0)],[(0,71),(1,0)],[(0,71),(1,0)]] :: population) ! i ! j) \<and> snd (([[(0,71),(1,0)],[(0,71),(1,0)],[(0,71),(1,0)],[(0,71),(1,0)],[(0,71),(1,0)],[(0,71),(1,0)],[(0,71),(1,0)]] :: population) ! i ! j) \<le> 9999) \<and>
           (j \<notin> set [1] \<longrightarrow> ([[(0,71),(1,0)],[(0,71),(1,0)],[(0,71),(1,0)],[(0,71),(1,0)],[(0,71),(1,0)],[(0,71),(1,0)],[(0,71),(1,0)]] :: population) ! i ! j = selected_to_vary ! i ! j)))"
    by (rule select_and_vary_replaces_only_selected_cases [OF run])
qed

section \<open>The simulation history\<close>

text \<open>
  Claim C1. For \<open>num_generations \<ge> 0\<close>, \<open>pop_size \<ge> 7\<close>, \<open>num_cases \<ge> 1\<close> and a rate
  in \<open>[0, 1]\<close>, \<open>simualte_evolution\<close> returns a history on every random tape, and in the
  population at each index \<open>gen\<close> of the history every individual has \<open>num_cases\<close> cases
  whose origin tags lie in \<open>[0, gen]\<close>.
\<close>

theorem history_individuals_well_formed:
  assumes "0 \<le> num_generations" and "7 \<le> pop_size" and "1 \<le> num_cases"
    and "0 \<le> rate" and "rate \<le> 1"
  shows "\<exists>history g'.
           simualte_evolution num_generations pop_size num_cases rate g = Inr (history, g') \<and>
           int (length history) = num_generations + 1 \<and>
           (\<forall>gen < length history. \<forall>individual \<in> set (history ! gen).
              int (length individual) = num_cases \<and>
              (\<forall>c \<in> set individual. 0 \<le> fst c \<and> fst c \<le> int gen))"
proof -
  from simualte_evolution_sound [OF assms(2-5), of num_generations g] obtain history rs
    where run: "simualte_evolution num_generations pop_size num_cases rate g
                  = Inr (history, rs ! nat num_generations)"
      and lh: "length history = nat num_generations + 1"
      and inv: "\<forall>i < length history.
                  generation_ok (nat pop_size) (nat num_cases)
                    (nat \<lfloor>rate * real (nat num_cases)\<rfloor>) (int i) (history ! i)"
    by blast
  from lh assms(1) have "int (length history) = num_generations + 1" by simp
  moreover have "\<forall>gen < length history. \<forall>individual \<in> set (history ! gen).
              int (length individual) = num_cases \<and>
              (\<forall>c \<in> set individual. 0 \<le> fst c \<and> fst c \<le> int gen)"
  proof (intro allI impI ballI)
    fix gen individual
    assume "gen < length history" "individual \<in> set (history ! gen)"
    with inv have "length individual = nat num_cases"
      and "\<forall>c \<in> set individual. 0 \<le> fst c \<and> fst c \<le> int gen"
      by (auto simp: generation_ok_def)
    with assms(3) show "int (length individual) = num_cases \<and>
              (\<forall>c \<in> set individual. 0 \<le> fst c \<and> fst c \<le> int gen)" by simp
  qed
  ultimately show ?thesis using run by blast
qed

theorem history_individuals_well_formed_witness:
  "\<exists>history g'.
     simualte_evolution 2 7 3 (1/2) [4, 8, 15, 16, 23, 42] = Inr (history, g') \<and>
     int (length history) = 2 + 1 \<and>
     (\<forall>gen < length history. \<forall>individual \<in> set (history ! gen).
        int (length individual) = 3 \<and>
        (\<forall>c \<in> set individual. 0 \<le> fst c \<and> fst c \<le> int gen))"
  by (rule history_individuals_well_formed) simp_all

text \<open>
  Claim C7. Under the same preconditions the history has \<open>num_generations + 1\<close>
  populations; the first is the freshly generated initial population (\<open>pop_size\<close>
  individuals of \<open>num_cases\<close> cases, all tagged 0, with error values in \<open>[0, 9999]\<close>), and
  the population at index \<open>i + 1\<close> is what \<open>simulate_one_generation\<close> returns for the
  population at index \<open>i\<close>, started in the random state \<open>rs ! i\<close> that the previous step
  left behind.
\<close>

theorem simualte_evolution_builds_history:
  assumes "0 \<le> num_generations" and "7 \<le> pop_size" and "1 \<le> num_cases"
    and "0 \<le> rate" and "rate \<le> 1"
  shows "\<exists>history rs.
           simualte_evolution num_generations pop_size num_cases rate g
             = Inr (history, rs ! nat num_generations) \<and>
           int (length history) = num_generations + 1 \<and>
           length rs = length history \<and>
           generate_initial_population pop_size num_cases g = (history ! 0, rs ! 0) \<and>
           int (length (history ! 0)) = pop_size \<and>
           (\<forall>individual \<in> set (history ! 0).
              int (length individual) = num_cases \<and>
              (\<forall>c \<in> set individual. fst c = 0 \<and> 0 \<le> snd c \<and> snd c \<le> 9999)) \<and>
           (\<forall>i < nat num_generations.
              simulate_one_generation (history ! i) rate (rs ! i)
                = Inr (history ! Suc i, rs ! Suc i))"
proof -
  from simualte_evolution_sound [OF assms(2-5), of num_generations g] obtain history rs
    where run: "simualte_evolution num_generations pop_size num_cases rate g
                  = Inr (history, rs ! nat num_generations)"
      and lrs: "length rs = nat num_generations + 1"
      and lh: "length history = nat num_generations + 1"
      and init: "generate_initial_population pop_size num_cases g = (history ! 0, rs ! 0)"
      and steps: "\<forall>i < nat num_generations.
                    simulate_one_generation (history ! i) rate (rs ! i)
                      = Inr (history ! Suc i, rs ! Suc i)"
    by blast
  note g0 = generate_initial_population_sound [OF init]
  from lh assms(1) have "int (length history) = num_generations + 1" by simp
  moreover from lrs lh have "length rs = length history" by simp
  moreover from g0(1) assms(2) have "int (length (history ! 0)) = pop_size" by simp
  moreover from g0(2) assms(3)
  have "\<forall>individual \<in> set (history ! 0).
              int (length individual) = num_cases \<and>
              (\<forall>c \<in> set individual. fst c = 0 \<and> 0 \<le> snd c \<and> snd c \<le> 9999)"
    by simp
  ultimately show ?thesis using run init steps by blast
qed

theorem simualte_evolution_builds_history_witness:
  "\<exists>history rs.
     simualte_evolution 2 7 3 (1/2) [4, 8, 15, 16, 23, 42] = Inr (history, rs ! nat 2) \<and>
     int (length history) = 2 + 1 \<and>
     length rs = length history \<and>
     generate_initial_population 7 3 [4, 8, 15, 16, 23, 42] = (history ! 0, rs ! 0) \<and>
     int (length (history ! 0)) = 7 \<and>
     (\<forall>individual \<in> set (history ! 0).
        int (length individual) = 3 \<and>
        (\<forall>c \<in> set individual. fst c = 0 \<and> 0 \<le> snd c \<and> snd c \<le> 9999)) \<and>
     (\<forall>i < nat 2.
        simulate_one_generation (history ! i) (1/2) (rs ! i) = Inr (history ! Suc i, rs ! Suc i))"
  by (rule simualte_evolution_builds_history) simp_all

section \<open>The shared maximum origin tag\<close>

text \<open>
  \<open>get_new_generation_age\<close> reads the first individual only. In the population below the
  first individual's greatest tag is 0 and the greatest tag of the population is 5: the
  new age is 1, not 6, and \<open>select_and_vary\<close> tags the replaced case of every child
  with 1.
\<close>

theorem new_generation_age_reads_first_individual_only:
  "get_new_generation_age [[(0,10)],[(5,20)],[(5,30)],[(5,40)],[(5,50)],[(5,60)],[(5,70)]] = Inr 1 \<and>
   Max (fst ` set (concat ([[(0,10)],[(5,20)],[(5,30)],[(5,40)],[(5,50)],[(5,60)],[(5,70)]] :: population))) + 1 = (6::int) \<and>
   select_and_vary [[(0,10)],[(5,20)],[(5,30)],[(5,40)],[(5,50)],[(5,60)],[(5,70)]] [0] []
     = Inr ([[(1,0)],[(1,0)],[(1,0)],[(1,0)],[(1,0)],[(1,0)],[(1,0)]], [])"
proof (intro conjI)
  show age: "get_new_generation_age [[(0,10)],[(5,20)],[(5,30)],[(5,40)],[(5,50)],[(5,60)],[(5,70)]] = Inr 1"
    by code_simp
  show "Max (fst ` set (concat ([[(0,10)],[(5,20)],[(5,30)],[(5,40)],[(5,50)],[(5,60)],[(5,70)]] :: population))) + 1 = (6::int)"
    by simp
  have ts: "tournament_selection [[(0,10)],[(5,20)],[(5,30)],[(5,40)],[(5,50)],[(5,60)],[(5,70)]] []
              = Inr ([(5,70)], [])"
    by code_simp
  have mc: "make_child 1 [0] [(5,70)] [] = ([(1,0)], [])"
    by code_simp
  from select_and_vary_fixed_state [OF ts age mc]
  show "select_and_vary [[(0,10)],[(5,20)],[(5,30)],[(5,40)],[(5,50)],[(5,60)],[(5,70)]] [0] []
     = Inr ([[(1,0)],[(1,0)],[(1,0)],[(1,0)],[(1,0)],[(1,0)],[(1,0)]], [])"
    by simp
qed

text \<open>
  Claim C6, amended. In every population of a simulator history all individuals share
  one maximum origin tag. For every non-empty parent population whose individuals are
  non-empty and share the maximum origin tag \<open>m\<close>, \<open>m\<close> is the maximum origin tag of the
  whole population, the new generation age is \<open>m + 1\<close>, and every replaced case of every
  child that \<open>select_and_vary\<close> returns is tagged \<open>m + 1\<close>.
\<close>

theorem shared_maximum_origin_tag:
  "(0 \<le> num_generations \<and> 7 \<le> pop_size \<and> 1 \<le> num_cases \<and> 0 \<le> rate \<and> rate \<le> 1 \<longrightarrow>
      (\<exists>history g'.
         simualte_evolution num_generations pop_size num_cases rate g = Inr (history, g') \<and>
         (\<forall>gen < length history. \<exists>m. \<forall>a \<in> set (history ! gen). a \<noteq> [] \<and> Max (fst ` set a) = m))) \<and>
   (population \<noteq> [] \<and> (\<forall>a \<in> set population. a \<noteq> [] \<and> Max (fst ` set a) = m) \<longrightarrow>
      Max (fst ` set (concat population)) = m \<and>
      get_new_generation_age population = Inr (m + 1) \<and>
      (select_and_vary population cases_to_replace g2 = Inr (new_population, g3) \<longrightarrow>
         (\<forall>child \<in> set new_population. \<forall>j < length child.
            j \<in> set cases_to_replace \<longrightarrow> fst (child ! j) = m + 1)))"
proof (intro conjI impI)
  assume pre: "0 \<le> num_generations \<and> 7 \<le> pop_size \<and> 1 \<le> num_cases \<and> 0 \<le> rate \<and> rate \<le> 1"
  let ?k = "nat \<lfloor>rate * real (nat num_cases)\<rfloor>"
  from pre have "7 \<le> pop_size" "1 \<le> num_cases" "0 \<le> rate" "rate \<le> 1" by simp_all
  from simualte_evolution_sound [OF this, of num_generations g] obtain history rs
    where run: "simualte_evolution num_generations pop_size num_cases rate g
                  = Inr (history, rs ! nat num_generations)"
      and inv: "\<forall>i < length history.
                  generation_ok (nat pop_size) (nat num_cases) ?k (int i) (history ! i)"
    by blast
  have "\<exists>m. \<forall>a \<in> set (history ! gen). a \<noteq> [] \<and> Max (fst ` set a) = m"
    if "gen < length history" for gen
  proof (intro exI ballI)
    fix a assume a: "a \<in> set (history ! gen)"
    from inv that have ok: "generation_ok (nat pop_size) (nat num_cases) ?k (int gen) (history ! gen)"
      by blast
    from pre have N: "0 < nat num_cases" by simp
    from ok a N have "a \<noteq> []" by (auto simp: generation_ok_def)
    moreover from individual_max_tag [OF ok a N]
    have "Max (fst ` set a) = (if ?k = 0 then 0 else int gen)" by simp
    ultimately show "a \<noteq> [] \<and> Max (fst ` set a) = (if ?k = 0 then 0 else int gen)" ..
  qed
  with run show "\<exists>history g'.
         simualte_evolution num_generations pop_size num_cases rate g = Inr (history, g') \<and>
         (\<forall>gen < length history. \<exists>m. \<forall>a \<in> set (history ! gen). a \<noteq> [] \<and> Max (fst ` set a) = m)"
    by blast
next
  assume sh: "population \<noteq> [] \<and> (\<forall>a \<in> set population. a \<noteq> [] \<and> Max (fst ` set a) = m)"
  then have ne: "population \<noteq> []"
    and shared: "\<forall>a \<in> set population. a \<noteq> [] \<and> Max (fst ` set a) = m" by simp_all
  show "Max (fst ` set (concat population)) = m"
    by (rule shared_max_tag_age(1) [OF ne shared])
  show age: "get_new_generation_age population = Inr (m + 1)"
    by (rule shared_max_tag_age(2) [OF ne shared])
  assume sv: "select_and_vary population cases_to_replace g2 = Inr (new_population, g3)"
  from select_and_vary_sound [OF sv] age obtain parents
    where rel: "list_all2
             (\<lambda>parent child.
                length child = length parent \<and>
                (\<forall>j < length parent.
                   (j \<in> set cases_to_replace \<longrightarrow>
                      fst (child ! j) = m + 1 \<and>
                      0 \<le> snd (child ! j) \<and> snd (child ! j) \<le> 9999) \<and>
                   (j \<notin> set cases_to_replace \<longrightarrow> child ! j = parent ! j)))
             parents new_population"
    by auto
  show "\<forall>child \<in> set new_population. \<forall>j < length child.
            j \<in> set cases_to_replace \<longrightarrow> fst (child ! j) = m + 1"
  proof (intro ballI allI impI)
    fix child j
    assume "child \<in> set new_population" and j: "j < length child" "j \<in> set cases_to_replace"
    then obtain i where i: "i < length new_population" "child = new_population ! i"
      by (auto simp: in_set_conv_nth)
    with rel j show "fst (child ! j) = m + 1"
      by (simp add: list_all2_conv_all_nth)
  qed
qed

theorem shared_maximum_origin_tag_witness:
  "(\<exists>history g'.
      simualte_evolution 2 7 3 (1/2) [4, 8, 15, 16, 23, 42] = Inr (history, g') \<and>
      (\<forall>gen < length history. \<exists>m. \<forall>a \<in> set (history ! gen). a \<noteq> [] \<and> Max (fst ` set a) = m)) \<and>
   Max (fst ` set (concat ([[(2,10),(0,1)],[(1,20),(2,2)],[(2,30),(2,3)],[(0,40),(2,4)],[(2,50),(1,5)],[(2,60),(0,6)],[(1,70),(2,7)]] :: population))) = (2::int) \<and>
   get_new_generation_age [[(2,10),(0,1)],[(1,20),(2,2)],[(2,30),(2,3)],[(0,40),(2,4)],[(2,50),(1,5)],[(2,60),(0,6)],[(1,70),(2,7)]] = Inr 3 \<and>
   select_and_vary [[(2,10),(0,1)],[(1,20),(2,2)],[(2,30),(2,3)],[(0,40),(2,4)],[(2,50),(1,5)],[(2,60),(0,6)],[(1,70),(2,7)]] [1] []
     = Inr ([[(1,70),(3,0)],[(1,70),(3,0)],[(1,70),(3,0)],[(1,70),(3,0)],[(1,70),(3,0)],[(1,70),(3,0)],[(1,70),(3,0)]], []) \<and>
   list_all (\<lambda>child. fst (child ! 1) = 3)
     ([[(1,70),(3,0)],[(1,70),(3,0)],[(1,70),(3,0)],[(1,70),(3,0)],[(1,70),(3,0)],[(1,70),(3,0)],[(1,70),(3,0)]] :: population)"
proof -
  let ?P = "[[(2,10),(0,1)],[(1,20),(2,2)],[(2,30),(2,3)],[(0,40),(2,4)],[(2,50),(1,5)],[(2,60),(0,6)],[(1,70),(2,7)]] :: population"
  let ?NP = "[[(1,70),(3,0)],[(1,70),(3,0)],[(1,70),(3,0)],[(1,70),(3,0)],[(1,70),(3,0)],[(1,70),(3,0)],[(1,70),(3,0)]] :: population"
  have ts: "tournament_selection ?P [] = Inr ([(1,70),(2,7)], [])" by code_simp
  have age: "get_new_generation_age ?P = Inr 3" by code_simp
  have mc: "make_child 3 [1] [(1,70),(2,7)] [] = ([(1,70),(3,0)], [])" by code_simp
  from select_and_vary_fixed_state [OF ts age mc]
  have run: "select_and_vary ?P [1] [] = Inr (?NP, [])" by simp
  have pre: "(0::int) \<le> 2 \<and> (7::int) \<le> 7 \<and> (1::int) \<le> 3 \<and> (0::real) \<le> 1/2 \<and> (1/2::real) \<le> 1"
    by simp
  have sh: "?P \<noteq> [] \<and> (\<forall>a \<in> set ?P. a \<noteq> [] \<and> Max (fst ` set a) = 2)" by simp
  note inst = shared_maximum_origin_tag
    [of 2 7 3 "1/2" "[4, 8, 15, 16, 23, 42]" ?P 2 "[1]" "[]" ?NP "[]"]
  from inst pre have part1: "\<exists>history g'.
      simualte_evolution 2 7 3 (1/2) [4, 8, 15, 16, 23, 42] = Inr (history, g') \<and>
      (\<forall>gen < length history. \<exists>m. \<forall>a \<in> set (history ! gen). a \<noteq> [] \<and> Max (fst ` set a) = m)"
    by blast
  from inst sh run have part2: "Max (fst ` set (concat ?P)) = 2"
    "get_new_generation_age ?P = Inr (2 + 1)"
    "\<forall>child \<in> set ?NP. \<forall>j < length child. j \<in> set [1::nat] \<longrightarrow> fst (child ! j) = 2 + 1"
    by blast+
  from part2(3) have "list_all (\<lambda>child. fst (child ! 1) = 3) ?NP" by simp
  with part1 part2(1,2) run show ?thesis by simp
qed

section \<open>The degenerate call of the percentage calculator\<close>

text \<open>
  Claim C2. On every run of the simulator and for every generation \<open>gen\<close> with
  \<open>1 \<le> gen \<le> num_generations\<close>, the call
  \<open>percent_cases_above_ancestor history gen gen\<close> returns exactly
  \<open>1 - \<lfloor>rate * num_cases\<rfloor> / num_cases\<close>: the share of the cases that generation \<open>gen\<close>
  did not replace, which is the complement of what the docstring of the function
  promises (\<^verbatim>\<open>should always return downsample rate of simulation\<close>). With 100
  individuals, 100 cases and rate 0.1 the value is 0.9 on every run, farther than 0.03
  from the rate.
\<close>

theorem degenerate_call_returns_share_not_replaced:
  assumes "7 \<le> pop_size" and "1 \<le> num_cases" and "0 \<le> rate" and "rate \<le> 1"
    and "1 \<le> gen" and "gen \<le> num_generations"
  shows "\<exists>history g'.
           simualte_evolution num_generations pop_size num_cases rate g = Inr (history, g') \<and>
           percent_cases_above_ancestor history gen gen
             = Inr (1 - real_of_int \<lfloor>rate * real_of_int num_cases\<rfloor> / real_of_int num_cases)"
proof -
  define N where "N = nat num_cases"
  define k where "k = nat \<lfloor>rate * real N\<rfloor>"
  define i where "i = nat gen"
  from simualte_evolution_sound [OF assms(1-4), of num_generations g] obtain history rs
    where run: "simualte_evolution num_generations pop_size num_cases rate g
                  = Inr (history, rs ! nat num_generations)"
      and lh: "length history = nat num_generations + 1"
      and inv: "\<forall>i < length history.
                  generation_ok (nat pop_size) N k (int i) (history ! i)"
    unfolding N_def k_def by blast
  from assms(5,6) lh have lt: "i < length history" and ipos: "0 < int i" and ig: "int i = gen"
    by (simp_all add: i_def)
  with inv have ok: "generation_ok (nat pop_size) N k (int i) (history ! i)" by blast
  from assms(1,2) have P: "0 < nat pop_size" and N: "0 < N" by (simp_all add: N_def)
  from ok have lenp: "length (history ! i) = nat pop_size" by (simp add: generation_ok_def)
  have cnt: "\<forall>individual \<in> set (history ! i).
               length individual = N \<and>
               length (filter (\<lambda>c. fst c = int i) individual) = k"
  proof
    fix individual assume mem: "individual \<in> set (history ! i)"
    with ok have len: "length individual = N"
      and zero: "k = 0 \<longrightarrow> (\<forall>c \<in> set individual. fst c = 0)"
      and pos: "0 < k \<and> 0 < int i \<longrightarrow> length (filter (\<lambda>c. fst c = int i) individual) = k"
      by (simp_all add: generation_ok_def)
    have "length (filter (\<lambda>c. fst c = int i) individual) = k"
    proof (cases "k = 0")
      case True
      with zero ipos have "filter (\<lambda>c. fst c = int i) individual = []"
        by (auto simp: filter_empty_conv)
      with True show ?thesis by simp
    next
      case False
      then have "0 < k" by simp
      with pos ipos show ?thesis by blast
    qed
    with len show "length individual = N \<and>
               length (filter (\<lambda>c. fst c = int i) individual) = k" ..
  qed
  from percent_cases_above_own_generation [OF lt refl P lenp N cnt]
  have "percent_cases_above_ancestor history (int i) (int i) = Inr (1 - real k / real N)" .
  moreover from assms(2) have rn: "real N = real_of_int num_cases" by (simp add: N_def)
  moreover from assms(2,3) have "real k = real_of_int \<lfloor>rate * real_of_int num_cases\<rfloor>"
    unfolding k_def rn by simp
  ultimately have "percent_cases_above_ancestor history gen gen
             = Inr (1 - real_of_int \<lfloor>rate * real_of_int num_cases\<rfloor> / real_of_int num_cases)"
    using ig by simp
  with run show ?thesis by blast
qed

theorem degenerate_call_returns_share_not_replaced_witness:
  "(\<exists>history g'.
      simualte_evolution 1 100 100 (1/10) [] = Inr (history, g') \<and>
      percent_cases_above_ancestor history 1 1 = Inr (9/10)) \<and>
   \<not> \<bar>9/10 - 1/10\<bar> \<le> (3/100 :: real)"
  using degenerate_call_returns_share_not_replaced [of 100 100 "1/10" 1 1 "[]"]
  by simp

section \<open>The threshold estimator\<close>




section \<open>The in-place sort of the ancestor list\<close>

text \<open>
  Claim C10. After any call of \<open>percent_cases_from_ancestors_at_specified_generation\<close>,
  whether it returns or raises, the caller's list \<open>interested_ancestors\<close> is its ascending
  sort: sorted, with the same elements. The list that \<open>percent_cases_above_ancestor\<close>
  hands over, \<open>[targeted_ancestors..target_generation]\<close>, is ascending already and comes
  back as it was.
\<close>

theorem interested_ancestors_sorted_in_place:
  "fst (percent_cases_from_ancestors_at_specified_generation results target_generation
          interested_ancestors) = sort interested_ancestors \<and>
   sorted (fst (percent_cases_from_ancestors_at_specified_generation results target_generation
          interested_ancestors)) \<and>
   mset (fst (percent_cases_from_ancestors_at_specified_generation results target_generation
          interested_ancestors)) = mset interested_ancestors \<and>
   fst (percent_cases_from_ancestors_at_specified_generation results target_generation
          [targeted_ancestors..target_generation]) = [targeted_ancestors..target_generation]"
proof -
  have "sort [targeted_ancestors..target_generation] = [targeted_ancestors..target_generation]"
    by (rule sorted_sort_id) simp
  then show ?thesis
    by (simp add: percent_cases_from_ancestors_at_specified_generation_def Let_def)
qed

end
